theory Spec2Isabelle
  imports Main
begin

section \<open>The Protel capture daemon (proteld.c)\<close>

text \<open>
  The daemon reads the byte stream of one modem call into a 512-byte array, looks for the
  fixed-format printout \<^verbatim>\<open>*3115552368*43125*DD8822*1234*032*2312237122028*37090*\<close>
  and hangs up as soon as it has one. Bytes are modelled as \<^typ>\<open>char\<close> (8 bits), C arrays
  as \<^typ>\<open>char list\<close>, pointers into an array as indices, and a \<^verbatim>\<open>char *\<close> argument as
  the part of the array from the pointer to the array's end. Reading beyond the end of an
  array is undefined behaviour in C; the model makes it the value \<open>Inl OutOfBounds\<close>.
  The diagnostic output on stdout and stderr does not influence any decision and is left out.
\<close>

subsection \<open>Bytes and C strings\<close>

datatype fault = OutOfBounds

definition NUL :: char where
  "NUL = CHR 0x00"

definition star :: char where
  "star = CHR ''*''"

definition DATA_LENGTH :: int where
  "DATA_LENGTH = 54"

definition DATA_STARS :: int where
  "DATA_STARS = 8"

text \<open>\<^verbatim>\<open>isdigit\<close> of ctype.h in the C locale, and the two macros of the source.\<close>

definition isdigit :: "char \<Rightarrow> bool" where
  "isdigit x = (48 \<le> (of_char x :: nat) \<and> (of_char x :: nat) \<le> 57)"

definition is_d :: "char \<Rightarrow> bool" where
  "is_d x = (x = CHR ''D'')"

definition TRUE :: "char \<Rightarrow> bool" where
  "TRUE x = True"

text \<open>\<^verbatim>\<open>strlen\<close>: the number of bytes before the first zero byte.\<close>

fun strlen :: "char list \<Rightarrow> fault + nat" where
  "strlen [] = Inl OutOfBounds"
| "strlen (c # cs) =
     (if c = NUL then Inr 0
      else case strlen cs of Inl e \<Rightarrow> Inl e | Inr n \<Rightarrow> Inr (Suc n))"

text \<open>The string at a pointer, as the C library reads it: the bytes before the first zero
  byte.\<close>

definition c_string :: "char list \<Rightarrow> char list" where
  "c_string mem = takeWhile (\<lambda>c. c \<noteq> NUL) mem"

text \<open>The number of \<open>*\<close> in the string at a pointer.\<close>

definition stars_of :: "char list \<Rightarrow> nat" where
  "stars_of d = length (filter (\<lambda>c. c = star) (c_string d))"

text \<open>\<^verbatim>\<open>memchr(s, c, n)\<close>: the index of the first \<open>c\<close> among the first \<open>n\<close> bytes,
  \<open>None\<close> for the null pointer.\<close>

fun memchr :: "char list \<Rightarrow> char \<Rightarrow> nat \<Rightarrow> fault + nat option" where
  "memchr s c 0 = Inr None"
| "memchr [] c (Suc n) = Inl OutOfBounds"
| "memchr (x # xs) c (Suc n) =
     (if x = c then Inr (Some 0)
      else case memchr xs c n of
             Inl e \<Rightarrow> Inl e
           | Inr None \<Rightarrow> Inr None
           | Inr (Some i) \<Rightarrow> Inr (Some (Suc i)))"

text \<open>\<^verbatim>\<open>memmem(haystack, needle)\<close> of glibc, both given with their lengths: the index of
  the first occurrence of the needle.\<close>

fun memmem :: "char list \<Rightarrow> char list \<Rightarrow> nat option" where
  "memmem [] needle = (if needle = [] then Some 0 else None)"
| "memmem (h # hs) needle =
     (if take (length needle) (h # hs) = needle then Some 0
      else map_option Suc (memmem hs needle))"

subsection \<open>Autocorrection\<close>

text \<open>The macro \<^verbatim>\<open>AUTOCORRECT(pos, c, condl, condr)\<close>, lines 87 to 95.\<close>

definition AUTOCORRECT ::
  "nat \<Rightarrow> char \<Rightarrow> (char \<Rightarrow> bool) \<Rightarrow> (char \<Rightarrow> bool) \<Rightarrow> char list \<Rightarrow> char list" where
  "AUTOCORRECT pos c condl condr data =
     (if data ! pos \<noteq> c then
        (if condl (data ! (pos - 1)) \<and> condr (data ! (pos + 1)) then data[pos := c]
         else data)
      else data)"

text \<open>The seven macro calls of \<^verbatim>\<open>autocorrect\<close>, lines 110 to 116, as a table of
  offset, left-neighbour test and right-neighbour test, and as the source runs them.\<close>

definition autocorrect_rules :: "(nat \<times> (char \<Rightarrow> bool) \<times> (char \<Rightarrow> bool)) list" where
  "autocorrect_rules =
     [(11, isdigit, isdigit), (17, isdigit, is_d), (24, isdigit, isdigit),
      (29, isdigit, isdigit), (33, isdigit, isdigit), (47, isdigit, isdigit),
      (53, isdigit, TRUE)]"

definition autocorrect_body :: "char list \<Rightarrow> char list" where
  "autocorrect_body data =
     AUTOCORRECT 53 star isdigit TRUE
    (AUTOCORRECT 47 star isdigit isdigit
    (AUTOCORRECT 33 star isdigit isdigit
    (AUTOCORRECT 29 star isdigit isdigit
    (AUTOCORRECT 24 star isdigit isdigit
    (AUTOCORRECT 17 star isdigit is_d
    (AUTOCORRECT 11 star isdigit isdigit data))))))"

text \<open>\<^verbatim>\<open>autocorrect(data)\<close>, lines 97 to 117: nothing happens to a string of at most
  54 bytes.\<close>

definition autocorrect :: "char list \<Rightarrow> fault + char list" where
  "autocorrect data =
     (case strlen data of
        Inl e \<Rightarrow> Inl e
      | Inr n \<Rightarrow> if int n \<le> DATA_LENGTH then Inr data else Inr (autocorrect_body data))"

text \<open>What one rule leaves at its offset: the expected byte when the byte differs from it
  and both neighbours pass their tests, the old byte otherwise.\<close>

definition rule_byte :: "(char \<Rightarrow> bool) \<Rightarrow> (char \<Rightarrow> bool) \<Rightarrow> char list \<Rightarrow> nat \<Rightarrow> char" where
  "rule_byte condl condr d p =
     (if d ! p \<noteq> star \<and> condl (d ! (p - 1)) \<and> condr (d ! (p + 1)) then star else d ! p)"

subsection \<open>The payload validator\<close>

text \<open>The loop of lines 145 to 149: \<open>tmp\<close> is kept as its distance from \<open>start\<close>.\<close>

fun star_loop :: "char list \<Rightarrow> nat \<Rightarrow> int \<Rightarrow> fault + (nat \<times> int)" where
  "star_loop [] tmp stars = Inl OutOfBounds"
| "star_loop (c # cs) tmp stars =
     (if c = NUL then Inr (tmp, stars)
      else star_loop cs (tmp + 1) (if c = star then stars + 1 else stars))"

text \<open>\<^verbatim>\<open>data_done(buf, len)\<close>, lines 119 to 159. The array is corrected in place, so the
  model returns it with the verdict.\<close>

definition data_done :: "char list \<Rightarrow> int \<Rightarrow> fault + (bool \<times> char list)" where
  "data_done buf len =
     (if len < DATA_LENGTH then Inr (False, buf)
      else case memchr buf star (nat len) of
          Inl e \<Rightarrow> Inl e
        | Inr None \<Rightarrow> Inr (False, buf)
        | Inr (Some start) \<Rightarrow>
            if len - int start < DATA_LENGTH then Inr (False, buf)
            else case autocorrect (drop start buf) of
                Inl e \<Rightarrow> Inl e
              | Inr data \<Rightarrow>
                  (case star_loop data 0 0 of
                     Inl e \<Rightarrow> Inl e
                   | Inr (tmp, stars) \<Rightarrow>
                       if stars < DATA_STARS - 1 then Inr (False, take start buf @ data)
                       else if tmp < 53 then Inr (False, take start buf @ data)
                       else Inr (True, take start buf @ data)))"

subsection \<open>The corruption detector\<close>

text \<open>The condition of line 268. The two needles are the string literals of the source,
  searched in the bytes from offset 30 up to \<open>bytes_read\<close>.\<close>

definition marker1 :: "char list" where
  "marker1 = [CHR 0x01, CHR 0x00, CHR 0x00]"

definition marker2 :: "char list" where
  "marker2 = [CHR 0x00, CHR 0x00, CHR 0x00]"

definition is_corrupted :: "char list \<Rightarrow> int \<Rightarrow> bool" where
  "is_corrupted buf bytes_read =
     (bytes_read > DATA_LENGTH \<and>
      (memmem (take (nat (bytes_read - 30)) (drop 30 buf)) marker1 \<noteq> None \<or>
       memmem (take (nat (bytes_read - 30)) (drop 30 buf)) marker2 \<noteq> None))"

subsection \<open>The connection\<close>

text \<open>What the socket still has to deliver: chunks of bytes as they arrive and read
  errors; the empty list is the closed connection. \<^verbatim>\<open>read(fd, pos, count)\<close> returns its
  result, the bytes it stores at \<open>pos\<close>, and the socket afterwards.\<close>

datatype event = Bytes "char list" | Error

type_synonym socket = "event list"

fun read_fd :: "socket \<Rightarrow> nat \<Rightarrow> int \<times> char list \<times> socket" where
  "read_fd [] count = (0, [], [])"
| "read_fd (Error # fd) count = (- 1, [], fd)"
| "read_fd (Bytes c # fd) count =
     (if count = 0 then (0, [], Bytes c # fd)
      else if length c \<le> count then (int (length c), c, fd)
      else (int count, take count c, Bytes (drop count c) # fd))"

fun event_size :: "event \<Rightarrow> nat" where
  "event_size (Bytes c) = Suc (length c)"
| "event_size Error = 1"

definition sock_size :: "socket \<Rightarrow> nat" where
  "sock_size fd = sum_list (map event_size fd)"

text \<open>Subtraction on \<^verbatim>\<open>size_t\<close> (64 bits, both operands below \<open>2 ^ 64\<close>) wraps
  around.\<close>

definition size_t_sub :: "nat \<Rightarrow> nat \<Rightarrow> nat" where
  "size_t_sub a b = (if b \<le> a then a - b else 2 ^ 64 - (b - a))"

text \<open>Writing into an array: a block of bytes at an index, and one byte at a C \<^verbatim>\<open>int\<close>
  index. A write that is not inside the array is a fault.\<close>

definition store :: "char list \<Rightarrow> nat \<Rightarrow> char list \<Rightarrow> fault + char list" where
  "store mem p bytes =
     (if p + length bytes \<le> length mem
      then Inr (take p mem @ bytes @ drop (p + length bytes) mem)
      else Inl OutOfBounds)"

definition store_at :: "char list \<Rightarrow> int \<Rightarrow> char \<Rightarrow> fault + char list" where
  "store_at mem i c =
     (if 0 \<le> i \<and> i < int (length mem) then Inr (mem[nat i := c]) else Inl OutOfBounds)"

subsection \<open>One session\<close>

text \<open>The calls a session makes to the outside, in the order it makes them.\<close>

datatype effect =
  SockRead nat
  | SockClose
  | Access string
  | Open string
  | Write "char list"
  | CloseFile

text \<open>The effects on files, as opposed to those on the socket.\<close>

fun is_file_effect :: "effect \<Rightarrow> bool" where
  "is_file_effect (Access f) = True"
| "is_file_effect (Open f) = True"
| "is_file_effect (Write b) = True"
| "is_file_effect CloseFile = True"
| "is_file_effect (SockRead n) = False"
| "is_file_effect SockClose = False"

text \<open>The local variables of \<^verbatim>\<open>handler\<close>; \<open>pos\<close> is an index into \<open>buf\<close>, and \<open>trace\<close>
  records the effects so far.\<close>

record session =
  buf :: "char list"
  pos :: nat
  bytes_read :: int
  left :: nat
  success :: bool
  reset :: int
  trace :: "effect list"

definition init_session :: "char list \<Rightarrow> session" where
  "init_session stack =
     \<lparr>buf = stack, pos = 0, bytes_read = 0, left = 512, success = False, reset = 0,
      trace = []\<rparr>"

text \<open>The three ways out of the loop: line 265 (a complete printout), line 275 (the second
  corruption) and line 226 (read returned nothing or failed).\<close>

datatype outcome = SUCCESS | ABORTED | CLOSED

datatype step = Continue session socket | Break outcome session socket | Fault

text \<open>The decision of lines 263 to 283, taken on the terminated buffer: success, a
  corruption (the second one ends the session, the first one empties the buffer), or
  nothing yet. The branch of line 281 only prints that the buffer is full and goes on as
  the last branch does.\<close>

definition decide :: "session \<Rightarrow> socket \<Rightarrow> step" where
  "decide s fd =
     (case data_done (buf s) (bytes_read s) of
        Inl e \<Rightarrow> Fault
      | Inr (done, b) \<Rightarrow>
          let s2 = s\<lparr>buf := b\<rparr> in
          if done then Break SUCCESS (s2\<lparr>success := True\<rparr>) fd
          else if is_corrupted b (bytes_read s2) then
            (let s3 = s2\<lparr>reset := reset s2 + 1\<rparr> in
             if reset s3 = 2 then Break ABORTED s3 fd
             else Continue (s3\<lparr>bytes_read := 0, left := 512, pos := 0\<rparr>) fd)
          else Continue s2 fd)"

text \<open>One pass through the body of the \<^verbatim>\<open>for (;;)\<close> loop, lines 219 to 284: read at
  most \<open>left - 1\<close> bytes to \<open>pos\<close>, advance, write the terminator, decide.\<close>

definition iteration :: "session \<Rightarrow> socket \<Rightarrow> step" where
  "iteration s fd =
     (case read_fd fd (size_t_sub (left s) 1) of
        (res, bytes, fd') \<Rightarrow>
          let s0 = s\<lparr>trace := trace s @ [SockRead (size_t_sub (left s) 1)]\<rparr> in
          if res \<le> 0 then Break CLOSED s0 fd'
          else case store (buf s0) (pos s0) bytes of
              Inl e \<Rightarrow> Fault
            | Inr b1 \<Rightarrow>
                let s1 = s0\<lparr>buf := b1, pos := pos s0 + nat res,
                           left := size_t_sub (left s0) (nat res),
                           bytes_read := bytes_read s0 + res\<rparr> in
                (case store_at (buf s1) (bytes_read s1) NUL of
                   Inl e \<Rightarrow> Fault
                 | Inr b2 \<Rightarrow> decide (s1\<lparr>buf := b2\<rparr>) fd'))"

text \<open>The variables after lines 223 to 262, when \<^verbatim>\<open>read\<close> has returned \<open>res\<close> and stored
  \<open>bytes\<close> inside the array: the bytes are at the old writing position, the terminator is
  at the new fill length, and the counter and the success flag are as before.\<close>

definition received :: "session \<Rightarrow> int \<Rightarrow> char list \<Rightarrow> session" where
  "received s res bytes =
     s\<lparr>trace := trace s @ [SockRead (size_t_sub (left s) 1)],
       pos := pos s + nat res,
       left := size_t_sub (left s) (nat res),
       bytes_read := bytes_read s + res,
       buf := (take (pos s) (buf s) @ bytes @ drop (pos s + length bytes) (buf s))
                [nat (bytes_read s + res) := NUL]\<rparr>"

text \<open>The loop. Every pass that continues has taken at least one byte from the socket, so
  the loop ends on every connection that delivers finitely many bytes.\<close>

function handler_loop :: "session \<Rightarrow> socket \<Rightarrow> (outcome \<times> session \<times> socket) option" where
  "handler_loop s fd =
     (case iteration s fd of
        Fault \<Rightarrow> None
      | Break oc s' fd' \<Rightarrow> Some (oc, s', fd')
      | Continue s' fd' \<Rightarrow> handler_loop s' fd')"
  by pat_completeness auto
termination
proof (relation "measure (\<lambda>(s, fd). sock_size fd)")
  show "wf (measure (\<lambda>(s, fd). sock_size fd))"
    by simp
next
  fix s :: session and fd s' fd'
  assume c: "iteration s fd = Continue s' fd'"
  obtain res bytes fd1 where r: "read_fd fd (size_t_sub (left s) 1) = (res, bytes, fd1)"
    by (cases "read_fd fd (size_t_sub (left s) 1)") auto
  have pos: "0 < res" and same: "fd' = fd1"
    using c r
    by (auto simp: iteration_def decide_def Let_def split: if_splits sum.splits prod.splits)
  have "sock_size fd1 < sock_size fd"
  proof (cases fd)
    case Nil
    with r pos show ?thesis by simp
  next
    case (Cons e rest)
    show ?thesis
    proof (cases e)
      case Error
      with Cons r pos show ?thesis by simp
    next
      case (Bytes c)
      with Cons r pos show ?thesis
        by (auto simp: sock_size_def split: if_splits)
    qed
  qed
  with same show "((s', fd'), (s, fd)) \<in> measure (\<lambda>(s, fd). sock_size fd)"
    by simp
qed

declare handler_loop.simps [simp del]

text \<open>The states in which the loop begins a pass, starting from a given one.\<close>

inductive loop_reaches :: "session \<times> socket \<Rightarrow> session \<times> socket \<Rightarrow> bool" where
  start: "loop_reaches c c"
| pass: "loop_reaches c (s, fd) \<Longrightarrow> iteration s fd = Continue s' fd' \<Longrightarrow>
         loop_reaches c (s', fd')"

text \<open>What holds of the variables whenever the loop begins a pass.\<close>

definition loop_inv :: "session \<Rightarrow> bool" where
  "loop_inv s \<longleftrightarrow>
     length (buf s) = 512 \<and> 0 \<le> bytes_read s \<and> bytes_read s + int (left s) = 512 \<and>
     1 \<le> left s \<and> int (pos s) = bytes_read s \<and> (reset s = 0 \<or> reset s = 1) \<and>
     \<not> success s"

text \<open>What holds of the variables when the loop has ended in the given way.\<close>

definition loop_post :: "outcome \<Rightarrow> session \<Rightarrow> bool" where
  "loop_post oc s \<longleftrightarrow>
     length (buf s) = 512 \<and> 0 \<le> bytes_read s \<and> bytes_read s \<le> 511 \<and>
     (oc = ABORTED \<longleftrightarrow> reset s = 2) \<and> (oc = SUCCESS \<longleftrightarrow> success s) \<and>
     (reset s = 0 \<or> reset s = 1 \<or> reset s = 2) \<and>
     (oc = SUCCESS \<longrightarrow> (\<exists>m. data_done m (bytes_read s) = Inr (True, buf s)))"

subsection \<open>Saving the printout\<close>

text \<open>The options of the command line, and what the operating system answers while a file
  is saved: the \<open>k\<close>-th call of \<^verbatim>\<open>time(NULL)\<close> and of \<^verbatim>\<open>rand()\<close>, whether
  \<^verbatim>\<open>access(name, R_OK)\<close> succeeds, whether \<^verbatim>\<open>open\<close> fails, and what \<^verbatim>\<open>write\<close>
  returns. \<open>rounds\<close> bounds how often the model goes through the loop of lines 181 to 183,
  which ends only when the operating system reports an unused name.\<close>

record config =
  outputdir :: string
  log_to_file :: bool

record world =
  time_at :: "nat \<Rightarrow> nat"
  rand_at :: "nat \<Rightarrow> nat"
  readable :: "string \<Rightarrow> bool"
  open_fails :: "string \<Rightarrow> bool"
  write_returns :: int
  rounds :: nat

text \<open>Decimal digits, as \<^verbatim>\<open>%lu\<close> and \<^verbatim>\<open>%d\<close> print a number that is not negative.\<close>

definition digit_char :: "nat \<Rightarrow> char" where
  "digit_char n = ''0123456789'' ! n"

fun dec :: "nat \<Rightarrow> string" where
  "dec n = (if n < 10 then [digit_char n] else dec (n div 10) @ [digit_char (n mod 10)])"

declare dec.simps [simp del]

text \<open>\<^verbatim>\<open>snprintf(filename, sizeof(filename), ...)\<close> keeps at most 683 characters, and
  \<^verbatim>\<open>%.*s\<close> with precision 10 prints the string at its argument up to the zero byte, at
  most 10 characters of it.\<close>

definition snprintf :: "nat \<Rightarrow> string \<Rightarrow> string" where
  "snprintf cap text = take (cap - 1) text"

definition precision_s :: "nat \<Rightarrow> char list \<Rightarrow> string" where
  "precision_s n str = take n (c_string str)"

definition success_name :: "config \<Rightarrow> world \<Rightarrow> char list \<Rightarrow> nat \<Rightarrow> string" where
  "success_name cfg w mem tmp =
     snprintf 684 (outputdir cfg @ ''/'' @ dec (time_at w 0) @ ''_'' @
                   precision_s 10 (drop (tmp + 1) mem) @ ''.txt'')"

definition failure_name :: "config \<Rightarrow> world \<Rightarrow> nat \<Rightarrow> string" where
  "failure_name cfg w k =
     snprintf 684 (outputdir cfg @ ''/'' @ dec (time_at w k) @ ''_'' @
                   dec (rand_at w k mod 100000) @ ''_R.txt'')"

text \<open>The loop of lines 181 to 183, from its \<open>k\<close>-th round on.\<close>

fun unused_name :: "config \<Rightarrow> world \<Rightarrow> nat \<Rightarrow> nat \<Rightarrow> effect list \<times> string option" where
  "unused_name cfg w k 0 = ([], None)"
| "unused_name cfg w k (Suc fuel) =
     (if readable w (failure_name cfg w k)
      then (case unused_name cfg w (Suc k) fuel of
              (es, r) \<Rightarrow> (Access (failure_name cfg w k) # es, r))
      else ([Access (failure_name cfg w k)], Some (failure_name cfg w k)))"

datatype save_result = Returned int | AssertionFailed | StillNaming | BadRead

text \<open>Lines 188 to 202: open, one write of the whole buffer, close.\<close>

definition write_out :: "world \<Rightarrow> string \<Rightarrow> char list \<Rightarrow> int \<Rightarrow> effect list \<times> save_result" where
  "write_out w filename mem len =
     (if open_fails w filename then ([Open filename], Returned (- 1))
      else if write_returns w \<noteq> len
        then ([Open filename, Write (take (nat len) mem), CloseFile], Returned (- 1))
        else ([Open filename, Write (take (nat len) mem), CloseFile], Returned 0))"

text \<open>\<^verbatim>\<open>save_data(buf, len, success)\<close>, lines 161 to 203.\<close>

definition save_data ::
  "config \<Rightarrow> world \<Rightarrow> char list \<Rightarrow> int \<Rightarrow> bool \<Rightarrow> effect list \<times> save_result" where
  "save_data cfg w mem len ok =
     (if ok then
        (case memchr mem star (nat len) of
           Inl e \<Rightarrow> ([], BadRead)
         | Inr None \<Rightarrow> ([], AssertionFailed)
         | Inr (Some tmp) \<Rightarrow> write_out w (success_name cfg w mem tmp) mem len)
      else
        (case unused_name cfg w 0 (rounds w) of
           (es, None) \<Rightarrow> (es, StillNaming)
         | (es, Some filename) \<Rightarrow>
             (case write_out w filename mem len of (es', r) \<Rightarrow> (es @ es', r))))"

subsection \<open>The whole session\<close>

text \<open>\<^verbatim>\<open>handler\<close>, lines 205 to 302: the loop, then \<^verbatim>\<open>close(fd)\<close>, then
  \<^verbatim>\<open>save_data\<close> when a directory was given. \<open>stack\<close> is what the array \<open>buf\<close> holds
  before the first read. The result is the way the loop ended, the variables at the end
  with all effects of the session, and what \<^verbatim>\<open>save_data\<close> returned; \<open>None\<close> stands for
  a session that left its array. The two call counters of the process are not modelled.\<close>

definition handler ::
  "config \<Rightarrow> world \<Rightarrow> char list \<Rightarrow> socket \<Rightarrow> (outcome \<times> session \<times> save_result option) option" where
  "handler cfg w stack fd =
     (case handler_loop (init_session stack) fd of
        None \<Rightarrow> None
      | Some (oc, s, fd') \<Rightarrow>
          let s1 = s\<lparr>trace := trace s @ [SockClose]\<rparr> in
          if log_to_file cfg then
            (case save_data cfg w (buf s1) (bytes_read s1) (success s1) of
               (es, r) \<Rightarrow> Some (oc, s1\<lparr>trace := trace s1 @ es\<rparr>, Some r))
          else Some (oc, s1, None))"

subsection \<open>Sample data\<close>

text \<open>The printout of the comment at line 247, the same printout with its second \<open>*\<close>
  received as \<open>X\<close> and one more byte after it, the same with its second and fourth \<open>*\<close>
  received as \<open>X\<close>, and the bytes that come before the printout in that comment.\<close>

definition printout :: "char list" where
  "printout = ''*3115552368*43125*DD8822*1234*032*2312237122028*37090*''"

definition garbled :: "char list" where
  "garbled = ''*3115552368X43125*DD8822*1234*032*2312237122028*37090*!'' @ [NUL]"

definition garbled2 :: "char list" where
  "garbled2 = ''*3115552368X43125*DD8822X1234*032*2312237122028*37090*!'' @ [NUL]"

definition preamble :: "char list" where
  "preamble = ''TC!'' @ [NUL, NUL, NUL, CHR 0x90, NUL, NUL, NUL, NUL]"

text \<open>Sixty bytes of line noise with three zero bytes at offset 40, and with three zero
  bytes at offset 28, two of them before offset 30.\<close>

definition noise_late :: "char list" where
  "noise_late = replicate 40 (CHR ''a'') @ marker2 @ replicate 17 (CHR ''a'')"

definition noise_early :: "char list" where
  "noise_early = replicate 28 (CHR ''a'') @ marker2 @ replicate 29 (CHR ''a'')"

text \<open>The printout with a zero byte received in place of its sixth byte.\<close>

definition dropout :: "char list" where
  "dropout = ''*3115'' @ [NUL] @ ''52368*43125*DD8822*1234*032*2312237122028*37090*'' @ [NUL]"



definition unfixable :: "char list" where
  "unfixable = ''*311555236AX43125*DD8822XB234*032*2312237122028*37090*!'' @ [NUL]"

text \<open>An array of 512 bytes as a session may find it, and a connection that delivers sixty
  bytes ending a corrupted printout twice, then three more bytes.\<close>

definition stack0 :: "char list" where
  "stack0 = replicate 512 (CHR ''#'')"

definition twice_corrupted :: socket where
  "twice_corrupted = [Bytes noise_late, Bytes noise_late, Bytes ''abc'']"

text \<open>The variables after the first pass over \<open>twice_corrupted\<close>: the counter is 1 and the
  buffer counts as empty.\<close>

definition after_first_reset :: session where
  "after_first_reset =
     \<lparr>buf = noise_late @ NUL # replicate 451 (CHR ''#''), pos = 0, bytes_read = 0, left = 512,
      success = False, reset = 1, trace = [SockRead 511]\<rparr>"

text \<open>A daemon started with \<^verbatim>\<open>-f printouts\<close>, and an operating system in which no name is
  taken, every open succeeds and every write is complete for a buffer of 65 bytes.\<close>

definition cfg0 :: config where
  "cfg0 = \<lparr>outputdir = ''printouts'', log_to_file = True\<rparr>"

definition w0 :: world where
  "w0 = \<lparr>time_at = (\<lambda>k. 1718000000 + k), rand_at = (\<lambda>k. 4242), readable = (\<lambda>f. False),
          open_fails = (\<lambda>f. False), write_returns = 65, rounds = 3\<rparr>"

text \<open>A printout whose identifier arrived as letters, and the variables when the loop has
  seen it; an operating system as \<open>w0\<close> where the write of 54 bytes is complete.\<close>

definition lettered :: "char list" where
  "lettered = ''*ABCDEFGHIJ*43125*DD8822*1234*032*2312237122028*37090*''"

definition after_lettered :: session where
  "after_lettered =
     \<lparr>buf = lettered @ NUL # replicate 457 (CHR ''#''), pos = 54, bytes_read = 54,
      left = 458, success = True, reset = 0, trace = [SockRead 511]\<rparr>"

definition w54 :: world where
  "w54 = w0\<lparr>write_returns := 54\<rparr>"

text \<open>A connection that delivers three pieces of two bytes, and one that delivers the
  corrupted sixty bytes once between two such pieces.\<close>

definition quiet_call :: socket where
  "quiet_call = [Bytes ''ab'', Bytes ''cd'', Bytes ''ef'']"

definition once_corrupted :: socket where
  "once_corrupted = [Bytes ''ab'', Bytes noise_late, Bytes ''ef'']"

text \<open>A connection that delivers the preamble and the printout in one piece, and the
  variables when the loop has seen them.\<close>

definition good_call :: socket where
  "good_call = [Bytes (preamble @ printout)]"

definition after_printout :: session where
  "after_printout =
     \<lparr>buf = preamble @ printout @ NUL # replicate 446 (CHR ''#''), pos = 65, bytes_read = 65,
      left = 447, success = True, reset = 0, trace = [SockRead 511]\<rparr>"

section \<open>Properties\<close>

subsection \<open>C strings\<close>

lemma star_not_NUL: "star \<noteq> NUL"
  by (simp add: star_def NUL_def)

lemma strlen_Inr:
  "strlen d = Inr n \<Longrightarrow> n < length d \<and> d ! n = NUL \<and> (\<forall>i<n. d ! i \<noteq> NUL)"
proof (induction d arbitrary: n)
  case Nil
  then show ?case by simp
next
  case (Cons c cs)
  show ?case
  proof (cases "c = NUL")
    case True
    with Cons.prems show ?thesis by simp
  next
    case False
    with Cons.prems obtain m where m: "strlen cs = Inr m" "n = Suc m"
      by (auto split: sum.splits)
    from Cons.IH[OF m(1)] False m(2) show ?thesis
      by (auto simp: nth_Cons split: nat.splits)
  qed
qed

lemma strlen_update: "d ! p \<noteq> NUL \<Longrightarrow> c \<noteq> NUL \<Longrightarrow> strlen (d[p := c]) = strlen d"
proof (induction d arbitrary: p)
  case Nil
  then show ?case by simp
next
  case (Cons x xs)
  then show ?case by (cases p) auto
qed

subsection \<open>One rule, then the seven of them\<close>

lemma AUTOCORRECT_length: "length (AUTOCORRECT p c l r d) = length d"
  by (simp add: AUTOCORRECT_def)

lemma AUTOCORRECT_nth_neq: "i \<noteq> p \<Longrightarrow> AUTOCORRECT p c l r d ! i = d ! i"
  by (simp add: AUTOCORRECT_def)

lemma AUTOCORRECT_nth_eq:
  "p < length d \<Longrightarrow> AUTOCORRECT p c l r d ! p =
     (if d ! p \<noteq> c \<and> l (d ! (p - 1)) \<and> r (d ! (p + 1)) then c else d ! p)"
  by (simp add: AUTOCORRECT_def)

lemma AUTOCORRECT_strlen:
  "d ! p \<noteq> NUL \<Longrightarrow> c \<noteq> NUL \<Longrightarrow> strlen (AUTOCORRECT p c l r d) = strlen d"
  by (simp add: AUTOCORRECT_def strlen_update)

lemma AUTOCORRECT_noop: "d ! p = c \<Longrightarrow> AUTOCORRECT p c l r d = d"
  by (simp add: AUTOCORRECT_def)

lemma autocorrect_body_length: "length (autocorrect_body d) = length d"
  by (simp add: autocorrect_body_def AUTOCORRECT_length)

lemma autocorrect_body_other:
  assumes "i \<notin> {11, 17, 24, 29, 33, 47, 53}"
  shows "autocorrect_body d ! i = d ! i"
  using assms by (simp add: autocorrect_body_def AUTOCORRECT_nth_neq)

lemma autocorrect_body_11:
  "11 < length d \<Longrightarrow> autocorrect_body d ! 11 = rule_byte isdigit isdigit d 11"
  by (simp add: autocorrect_body_def AUTOCORRECT_nth_neq AUTOCORRECT_nth_eq AUTOCORRECT_length
      rule_byte_def)

lemma autocorrect_body_17:
  "17 < length d \<Longrightarrow> autocorrect_body d ! 17 = rule_byte isdigit is_d d 17"
  by (simp add: autocorrect_body_def AUTOCORRECT_nth_neq AUTOCORRECT_nth_eq AUTOCORRECT_length
      rule_byte_def)

lemma autocorrect_body_24:
  "24 < length d \<Longrightarrow> autocorrect_body d ! 24 = rule_byte isdigit isdigit d 24"
  by (simp add: autocorrect_body_def AUTOCORRECT_nth_neq AUTOCORRECT_nth_eq AUTOCORRECT_length
      rule_byte_def)

lemma autocorrect_body_29:
  "29 < length d \<Longrightarrow> autocorrect_body d ! 29 = rule_byte isdigit isdigit d 29"
  by (simp add: autocorrect_body_def AUTOCORRECT_nth_neq AUTOCORRECT_nth_eq AUTOCORRECT_length
      rule_byte_def)

lemma autocorrect_body_33:
  "33 < length d \<Longrightarrow> autocorrect_body d ! 33 = rule_byte isdigit isdigit d 33"
  by (simp add: autocorrect_body_def AUTOCORRECT_nth_neq AUTOCORRECT_nth_eq AUTOCORRECT_length
      rule_byte_def)

lemma autocorrect_body_47:
  "47 < length d \<Longrightarrow> autocorrect_body d ! 47 = rule_byte isdigit isdigit d 47"
  by (simp add: autocorrect_body_def AUTOCORRECT_nth_neq AUTOCORRECT_nth_eq AUTOCORRECT_length
      rule_byte_def)

lemma autocorrect_body_53:
  "53 < length d \<Longrightarrow> autocorrect_body d ! 53 = rule_byte isdigit TRUE d 53"
  by (simp add: autocorrect_body_def AUTOCORRECT_nth_neq AUTOCORRECT_nth_eq AUTOCORRECT_length
      rule_byte_def)

lemma autocorrect_body_strlen:
  assumes "strlen d = Inr n" and "53 < n"
  shows "strlen (autocorrect_body d) = Inr n"
proof -
  have "d ! i \<noteq> NUL" if "i < 54" for i
    using strlen_Inr[OF assms(1)] assms(2) that by simp
  then have "d ! 11 \<noteq> NUL" "d ! 17 \<noteq> NUL" "d ! 24 \<noteq> NUL" "d ! 29 \<noteq> NUL" "d ! 33 \<noteq> NUL"
    "d ! 47 \<noteq> NUL" "d ! 53 \<noteq> NUL"
    by simp_all
  then show ?thesis
    using assms(1)
    by (simp add: autocorrect_body_def AUTOCORRECT_strlen AUTOCORRECT_nth_neq star_not_NUL)
qed

lemma autocorrect_body_idem:
  assumes "53 < length d"
  shows "autocorrect_body (autocorrect_body d) = autocorrect_body d"
proof (rule nth_equalityI)
  show "length (autocorrect_body (autocorrect_body d)) = length (autocorrect_body d)"
    by (simp add: autocorrect_body_length)
next
  fix i
  assume "i < length (autocorrect_body (autocorrect_body d))"
  let ?e = "autocorrect_body d"
  have l: "53 < length ?e"
    using assms by (simp add: autocorrect_body_length)
  have nb: "\<And>j. j \<notin> {11, 17, 24, 29, 33, 47, 53} \<Longrightarrow> ?e ! j = d ! j"
    by (rule autocorrect_body_other)
  have st: "\<And>p l r. ?e ! p = rule_byte l r d p \<Longrightarrow> ?e ! (p - 1) = d ! (p - 1) \<Longrightarrow>
     ?e ! (p + 1) = d ! (p + 1) \<Longrightarrow> rule_byte l r ?e p = ?e ! p"
    by (simp add: rule_byte_def)
  consider "i = 11" | "i = 17" | "i = 24" | "i = 29" | "i = 33" | "i = 47" | "i = 53"
    | "i \<notin> {11, 17, 24, 29, 33, 47, 53}"
    by blast
  then show "autocorrect_body ?e ! i = ?e ! i"
  proof cases
    case 1
    have "rule_byte isdigit isdigit ?e 11 = ?e ! 11"
      using assms by (intro st autocorrect_body_11) (simp_all add: nb)
    then show ?thesis using l 1 by (simp add: autocorrect_body_11)
  next
    case 2
    have "rule_byte isdigit is_d ?e 17 = ?e ! 17"
      using assms by (intro st autocorrect_body_17) (simp_all add: nb)
    then show ?thesis using l 2 by (simp add: autocorrect_body_17)
  next
    case 3
    have "rule_byte isdigit isdigit ?e 24 = ?e ! 24"
      using assms by (intro st autocorrect_body_24) (simp_all add: nb)
    then show ?thesis using l 3 by (simp add: autocorrect_body_24)
  next
    case 4
    have "rule_byte isdigit isdigit ?e 29 = ?e ! 29"
      using assms by (intro st autocorrect_body_29) (simp_all add: nb)
    then show ?thesis using l 4 by (simp add: autocorrect_body_29)
  next
    case 5
    have "rule_byte isdigit isdigit ?e 33 = ?e ! 33"
      using assms by (intro st autocorrect_body_33) (simp_all add: nb)
    then show ?thesis using l 5 by (simp add: autocorrect_body_33)
  next
    case 6
    have "rule_byte isdigit isdigit ?e 47 = ?e ! 47"
      using assms by (intro st autocorrect_body_47) (simp_all add: nb)
    then show ?thesis using l 6 by (simp add: autocorrect_body_47)
  next
    case 7
    have "rule_byte isdigit TRUE ?e 53 = ?e ! 53"
      using assms by (intro st autocorrect_body_53) (simp_all add: nb)
    then show ?thesis using l 7 by (simp add: autocorrect_body_53)
  next
    case 8
    then show ?thesis by (simp add: autocorrect_body_other)
  qed
qed

lemma autocorrect_long:
  assumes "strlen d = Inr n" and "DATA_LENGTH < int n"
  shows "autocorrect d = Inr (autocorrect_body d)"
  using assms by (simp add: autocorrect_def)

lemma autocorrect_short:
  assumes "strlen d = Inr n" and "int n \<le> DATA_LENGTH"
  shows "autocorrect d = Inr d"
  using assms by (simp add: autocorrect_def)

text \<open>
  Claim C4. Running \<^verbatim>\<open>autocorrect\<close> on the buffer it has just corrected changes nothing:
  two passes leave the same bytes as one pass, and the second pass reads outside the
  array exactly when the first one does.
\<close>

theorem autocorrect_idempotent:
  "(case autocorrect data of Inl e \<Rightarrow> Inl e | Inr d \<Rightarrow> autocorrect d) = autocorrect data"
proof (cases "strlen data")
  case (Inl e)
  then show ?thesis by (simp add: autocorrect_def)
next
  case (Inr n)
  show ?thesis
  proof (cases "int n \<le> DATA_LENGTH")
    case True
    with Inr show ?thesis by (simp add: autocorrect_short)
  next
    case False
    then have n: "53 < n" by (simp add: DATA_LENGTH_def)
    have once: "autocorrect data = Inr (autocorrect_body data)"
      using Inr False by (simp add: autocorrect_long)
    have "strlen (autocorrect_body data) = Inr n"
      using Inr n by (rule autocorrect_body_strlen)
    then have "autocorrect (autocorrect_body data) = Inr (autocorrect_body (autocorrect_body data))"
      using False by (simp add: autocorrect_long)
    moreover have "53 < length data"
      using strlen_Inr[OF Inr] n by simp
    ultimately show ?thesis
      using once by (simp add: autocorrect_body_idem)
  qed
qed

theorem autocorrect_idempotent_witness:
  "autocorrect garbled = Inr (printout @ ''!'' @ [NUL]) \<and>
   autocorrect (printout @ ''!'' @ [NUL]) = Inr (printout @ ''!'' @ [NUL])"
proof -
  have once: "autocorrect garbled = Inr (printout @ ''!'' @ [NUL])"
    by (simp add: garbled_def printout_def autocorrect_def NUL_def DATA_LENGTH_def
        autocorrect_body_def AUTOCORRECT_def star_def isdigit_def is_d_def TRUE_def)
  with autocorrect_idempotent[of garbled] show ?thesis
    by simp
qed

text \<open>
  Claim C5. In a string of more than 54 bytes, the byte at a rule's offset becomes
  \<open>*\<close> when it is not \<open>*\<close> and the left test holds of the byte before it and the right
  test of the byte after it; otherwise the pass leaves it as it was, so a byte that is
  \<open>*\<close> stays. The bytes at all other offsets are never written.
\<close>

theorem autocorrect_rewrites_only_between_good_neighbours:
  assumes "(off, condl, condr) \<in> set autocorrect_rules"
    and "strlen data = Inr n"
    and "DATA_LENGTH < int n"
  shows "\<exists>d'. autocorrect data = Inr d' \<and> length d' = length data \<and>
           d' ! off = (if data ! off \<noteq> star \<and> condl (data ! (off - 1)) \<and> condr (data ! (off + 1))
                       then star else data ! off) \<and>
           (\<forall>i. i \<notin> fst ` set autocorrect_rules \<longrightarrow> d' ! i = data ! i)"
proof -
  have len: "53 < length data"
    using strlen_Inr[OF assms(2)] assms(3) by (simp add: DATA_LENGTH_def)
  have at: "autocorrect_body data ! off = rule_byte condl condr data off"
    using assms(1) len
    by (auto simp: autocorrect_rules_def autocorrect_body_11 autocorrect_body_17
        autocorrect_body_24 autocorrect_body_29 autocorrect_body_33 autocorrect_body_47
        autocorrect_body_53)
  have other: "autocorrect_body data ! i = data ! i" if "i \<notin> fst ` set autocorrect_rules" for i
    using that by (intro autocorrect_body_other) (simp add: autocorrect_rules_def)
  show ?thesis
    using autocorrect_long[OF assms(2,3)] at other
    by (simp add: autocorrect_body_length rule_byte_def)
qed

theorem autocorrect_rewrites_only_between_good_neighbours_witness:
  "(11, isdigit, isdigit) \<in> set autocorrect_rules \<and> strlen garbled = Inr 55 \<and>
   garbled ! 11 = CHR ''X'' \<and> (\<exists>d'. autocorrect garbled = Inr d' \<and> d' ! 11 = star)"
proof -
  have 1: "(11, isdigit, isdigit) \<in> set autocorrect_rules"
    by (simp add: autocorrect_rules_def)
  have 2: "strlen garbled = Inr 55"
    by (simp add: garbled_def NUL_def)
  have 3: "DATA_LENGTH < int 55"
    by (simp add: DATA_LENGTH_def)
  have 4: "garbled ! 11 = CHR ''X'' \<and> isdigit (garbled ! (11 - 1)) \<and> isdigit (garbled ! (11 + 1))"
    by (simp add: garbled_def isdigit_def)
  have 5: "garbled ! 11 \<noteq> star"
    using 4 by (simp add: star_def)
  from autocorrect_rewrites_only_between_good_neighbours[OF 1 2 3] 4 5 have
    "\<exists>d'. autocorrect garbled = Inr d' \<and> d' ! 11 = star"
    by auto
  with 1 2 4 show ?thesis
    by simp
qed

subsection \<open>Searching\<close>

lemma memchr_Some_iff:
  "memchr mem c n = Inr (Some s) \<longleftrightarrow>
     s < n \<and> s < length mem \<and> mem ! s = c \<and> (\<forall>i<s. mem ! i \<noteq> c)"
proof (induction mem c n arbitrary: s rule: memchr.induct)
  case (1 s' c)
  show ?case by simp
next
  case (2 c n)
  show ?case by simp
next
  case (3 x xs c n)
  show ?case
  proof (cases "x = c")
    case True
    then show ?thesis by (cases s) auto
  next
    case False
    show ?thesis
    proof (cases s)
      case 0
      with False show ?thesis by (auto split: sum.splits option.splits)
    next
      case (Suc j)
      have "(\<forall>i<Suc j. (x # xs) ! i \<noteq> c) \<longleftrightarrow> (\<forall>i<j. xs ! i \<noteq> c)"
        using False by (auto simp: nth_Cons split: nat.splits)
      with False Suc 3[OF False, of j] show ?thesis
        by (auto split: sum.splits option.splits)
    qed
  qed
qed

lemma memchr_no_fault: "n \<le> length mem \<Longrightarrow> memchr mem c n \<noteq> Inl e"
  by (induction mem c n rule: memchr.induct) (auto split: sum.splits option.splits)

lemma memmem_found_iff:
  assumes "needle \<noteq> []"
  shows "memmem hay needle \<noteq> None \<longleftrightarrow>
    (\<exists>i. i + length needle \<le> length hay \<and> take (length needle) (drop i hay) = needle)"
proof (induction hay)
  case Nil
  with assms show ?case by simp
next
  case (Cons h hs)
  let ?n = "length needle"
  show ?case
  proof (cases "take ?n (h # hs) = needle")
    case True
    have "length (take ?n (h # hs)) = ?n"
      using True by simp
    then have "0 + ?n \<le> length (h # hs)" by simp
    with True have "\<exists>i. i + ?n \<le> length (h # hs) \<and> take ?n (drop i (h # hs)) = needle"
      by (intro exI[of _ 0]) simp
    with True show ?thesis by simp
  next
    case False
    have "(\<exists>i. i + ?n \<le> length (h # hs) \<and> take ?n (drop i (h # hs)) = needle) \<longleftrightarrow>
          (\<exists>j. j + ?n \<le> length hs \<and> take ?n (drop j hs) = needle)" (is "?L \<longleftrightarrow> ?R")
    proof
      assume ?L
      then obtain i where i: "i + ?n \<le> length (h # hs)" "take ?n (drop i (h # hs)) = needle"
        by blast
      with False have "i \<noteq> 0" by (cases i) auto
      then obtain j where "i = Suc j" by (cases i) auto
      with i show ?R by (intro exI[of _ j]) simp
    next
      assume ?R
      then obtain j where "j + ?n \<le> length hs" "take ?n (drop j hs) = needle" by blast
      then show ?L by (intro exI[of _ "Suc j"]) simp
    qed
    with False Cons.IH show ?thesis by simp
  qed
qed

lemma take_drop_take: "i + k \<le> m \<Longrightarrow> take k (drop i (take m xs)) = take k (drop i xs)"
  by (simp add: drop_take min_def)

lemma window_from_30:
  assumes "30 \<le> n" "n \<le> length mem"
  shows "(\<exists>i. i + 3 \<le> length (take (n - 30) (drop 30 mem)) \<and>
              take 3 (drop i (take (n - 30) (drop 30 mem))) = m) \<longleftrightarrow>
         (\<exists>i. 30 \<le> i \<and> i + 3 \<le> n \<and> take 3 (drop i mem) = m)" (is "?L \<longleftrightarrow> ?R")
proof -
  have len: "length (take (n - 30) (drop 30 mem)) = n - 30"
    using assms by simp
  show ?thesis
  proof
    assume ?L
    then obtain i where i: "i + 3 \<le> n - 30"
      "take 3 (drop i (take (n - 30) (drop 30 mem))) = m"
      unfolding len by blast
    have "take 3 (drop i (take (n - 30) (drop 30 mem))) = take 3 (drop i (drop 30 mem))"
      using i(1) by (rule take_drop_take)
    also have "\<dots> = take 3 (drop (i + 30) mem)"
      by simp
    finally have "take 3 (drop (i + 30) mem) = m"
      using i(2) by simp
    moreover have "30 \<le> i + 30" "i + 30 + 3 \<le> n"
      using i(1) by simp_all
    ultimately show ?R by blast
  next
    assume ?R
    then obtain i where i: "30 \<le> i" "i + 3 \<le> n" "take 3 (drop i mem) = m"
      by blast
    have b: "(i - 30) + 3 \<le> n - 30"
      using i(1,2) by simp
    have "take 3 (drop (i - 30) (take (n - 30) (drop 30 mem))) =
          take 3 (drop (i - 30) (drop 30 mem))"
      using b by (rule take_drop_take)
    also have "\<dots> = take 3 (drop i mem)"
      using i(1) by simp
    finally have "take 3 (drop (i - 30) (take (n - 30) (drop 30 mem))) = m"
      using i(3) by simp
    with b show ?L
      unfolding len by blast
  qed
qed

text \<open>
  Claim C3. Once more than 54 bytes are in the buffer, the detector answers true exactly
  when one of the two three-byte markers lies in the buffer with its first byte at offset
  30 or later and its last byte before the fill length. A marker that begins before
  offset 30 is therefore never what triggers it.
\<close>

theorem corruption_detector_iff:
  assumes "DATA_LENGTH < len" and "nat len \<le> length mem"
  shows "is_corrupted mem len \<longleftrightarrow>
    (\<exists>i. 30 \<le> i \<and> i + 3 \<le> nat len \<and>
         (take 3 (drop i mem) = marker1 \<or> take 3 (drop i mem) = marker2))"
proof -
  have n: "30 \<le> nat len" "nat (len - 30) = nat len - 30"
    using assms(1) by (simp_all add: DATA_LENGTH_def)
  have m: "marker1 \<noteq> []" "marker2 \<noteq> []" and l: "length marker1 = 3" "length marker2 = 3"
    by (simp_all add: marker1_def marker2_def)
  let ?hay = "take (nat len - 30) (drop 30 mem)"
  have 1: "memmem ?hay marker1 \<noteq> None \<longleftrightarrow>
      (\<exists>i. 30 \<le> i \<and> i + 3 \<le> nat len \<and> take 3 (drop i mem) = marker1)"
    unfolding memmem_found_iff[OF m(1)] l by (rule window_from_30[OF n(1) assms(2)])
  have 2: "memmem ?hay marker2 \<noteq> None \<longleftrightarrow>
      (\<exists>i. 30 \<le> i \<and> i + 3 \<le> nat len \<and> take 3 (drop i mem) = marker2)"
    unfolding memmem_found_iff[OF m(2)] l by (rule window_from_30[OF n(1) assms(2)])
  have "is_corrupted mem len \<longleftrightarrow>
      (memmem ?hay marker1 \<noteq> None \<or> memmem ?hay marker2 \<noteq> None)"
    using assms(1) by (simp add: is_corrupted_def n(2))
  also have "\<dots> \<longleftrightarrow>
      ((\<exists>i. 30 \<le> i \<and> i + 3 \<le> nat len \<and> take 3 (drop i mem) = marker1) \<or>
       (\<exists>i. 30 \<le> i \<and> i + 3 \<le> nat len \<and> take 3 (drop i mem) = marker2))"
    unfolding 1 2 by (rule refl)
  also have "\<dots> \<longleftrightarrow> (\<exists>i. 30 \<le> i \<and> i + 3 \<le> nat len \<and>
         (take 3 (drop i mem) = marker1 \<or> take 3 (drop i mem) = marker2))"
    by blast
  finally show ?thesis .
qed

theorem corruption_detector_iff_witness:
  "DATA_LENGTH < 60 \<and> nat 60 \<le> length noise_late \<and> is_corrupted noise_late 60 \<and>
   take 3 (drop 28 noise_early) = marker2 \<and> \<not> is_corrupted noise_early 60"
proof -
  have 1: "DATA_LENGTH < 60"
    by (simp add: DATA_LENGTH_def)
  have 2: "nat 60 \<le> length noise_late"
    by (simp add: noise_late_def marker2_def)
  have "take 3 (drop 40 noise_late) = marker2"
    by (simp add: noise_late_def marker2_def)
  then have "\<exists>i. 30 \<le> i \<and> i + 3 \<le> nat 60 \<and>
      (take 3 (drop i noise_late) = marker1 \<or> take 3 (drop i noise_late) = marker2)"
    by (intro exI[of _ 40]) simp
  with corruption_detector_iff[OF 1 2] have 3: "is_corrupted noise_late 60"
    by simp
  have 4: "take 3 (drop 28 noise_early) = marker2"
    by (simp add: noise_early_def marker2_def)
  have 5: "\<not> is_corrupted noise_early 60"
    by (simp add: is_corrupted_def noise_early_def marker1_def marker2_def DATA_LENGTH_def
        eval_nat_numeral)
  from 1 2 3 4 5 show ?thesis
    by simp
qed

subsection \<open>The validator\<close>

lemma star_loop_strlen:
  "star_loop d t st =
     (case strlen d of
        Inl e \<Rightarrow> Inl e
      | Inr n \<Rightarrow> Inr (t + n, st + int (length (filter (\<lambda>c. c = star) (take n d)))))"
  by (induction d t st rule: star_loop.induct) (auto split: sum.splits)

lemma strlen_c_string: "strlen d = Inr n \<Longrightarrow> c_string d = take n d"
  by (induction d arbitrary: n) (auto simp: c_string_def split: if_splits sum.splits)

lemma strlen_length_c_string: "strlen d = Inr n \<Longrightarrow> length (c_string d) = n"
  by (frule strlen_Inr) (simp add: strlen_c_string)

lemma autocorrect_strlen:
  assumes "autocorrect d = Inr d'"
  shows "strlen d' = strlen d \<and> length d' = length d \<and> (\<exists>n. strlen d = Inr n)"
proof -
  from assms obtain n where n: "strlen d = Inr n"
    by (cases "strlen d") (auto simp: autocorrect_def)
  show ?thesis
  proof (cases "int n \<le> DATA_LENGTH")
    case True
    with n assms show ?thesis by (simp add: autocorrect_def)
  next
    case False
    then have "53 < n" by (simp add: DATA_LENGTH_def)
    with n have "strlen (autocorrect_body d) = Inr n" by (rule autocorrect_body_strlen)
    moreover have "autocorrect d = Inr (autocorrect_body d)"
      using n False by (simp add: autocorrect_def)
    ultimately show ?thesis using n assms by (simp add: autocorrect_body_length)
  qed
qed

lemma autocorrect_nth_0:
  assumes "autocorrect d = Inr d'"
  shows "d' ! 0 = d ! 0"
proof -
  have "autocorrect_body d ! 0 = d ! 0" by (rule autocorrect_body_other) simp
  with assms show ?thesis
    by (auto simp: autocorrect_def split: sum.splits if_splits)
qed

lemma data_done_at:
  assumes "memchr mem star (nat len) = Inr (Some s)" and "DATA_LENGTH \<le> len - int s"
  shows "data_done mem len =
     (case autocorrect (drop s mem) of
        Inl e \<Rightarrow> Inl e
      | Inr data \<Rightarrow>
          if stars_of data < 7 \<or> length (c_string data) < 53
          then Inr (False, take s mem @ data) else Inr (True, take s mem @ data))"
proof (cases "autocorrect (drop s mem)")
  case (Inl e)
  with assms show ?thesis by (simp add: data_done_def)
next
  case (Inr data)
  from autocorrect_strlen[OF Inr] obtain n where n: "strlen data = Inr n"
    by auto
  have c: "stars_of data = length (filter (\<lambda>c. c = star) (take n data))"
    "length (c_string data) = n"
    using n strlen_length_c_string[OF n] by (simp_all add: strlen_c_string stars_of_def)
  have "\<not> len < DATA_LENGTH" using assms(2) by simp
  with assms Inr n show ?thesis
    by (auto simp: data_done_def star_loop_strlen DATA_STARS_def c)
qed

lemma data_done_early:
  assumes "memchr mem star (nat len) = Inr (Some s)" and "len - int s < DATA_LENGTH"
  shows "data_done mem len = Inr (False, mem)"
  using assms by (simp add: data_done_def)

lemma autocorrect_body_noop:
  assumes "d ! 11 = star" "d ! 17 = star" "d ! 24 = star" "d ! 29 = star" "d ! 33 = star"
    "d ! 47 = star" "d ! 53 = star"
  shows "autocorrect_body d = d"
  using assms by (simp add: autocorrect_body_def AUTOCORRECT_noop)

lemma eight_stars:
  assumes "54 \<le> length xs" 
    and "xs ! 0 = star" "xs ! 11 = star" "xs ! 17 = star" "xs ! 24 = star" "xs ! 29 = star" "xs ! 33 = star"
    "xs ! 47 = star" "xs ! 53 = star"
  shows "8 \<le> length (filter (\<lambda>c. c = star) xs)"
proof -
  have "{0, 11, 17, 24, 29, 33, 47, 53} \<subseteq> {i. i < length xs \<and> xs ! i = star}"
    using assms by auto
  then have "card {0::nat, 11, 17, 24, 29, 33, 47, 53} \<le> card {i. i < length xs \<and> xs ! i = star}"
    by (intro card_mono) simp_all
  then show ?thesis by (simp add: length_filter_conv_card)
qed

text \<open>
  Claim C1, as the code has it. Let the buffer be any bytes without \<open>*\<close>, followed by a
  payload that begins with \<open>*\<close>, has \<open>*\<close> at the offsets 11, 17, 24, 29, 33, 47 and 53 and
  has no zero byte among its first 54 bytes (its string length is at least 54). Then, for
  every fill length that covers at least 54 bytes of the payload, the validator answers
  valid and leaves the buffer as it is, whatever the bytes before the payload are.
\<close>

theorem data_done_accepts_well_formed:
  assumes pre: "star \<notin> set pre"
    and str: "strlen pl = Inr n" "54 \<le> n"
    and m: "54 \<le> m"
    and first: "pl ! 0 = star"
    and offs: "pl ! 11 = star \<and> pl ! 17 = star \<and> pl ! 24 = star \<and> pl ! 29 = star \<and>
               pl ! 33 = star \<and> pl ! 47 = star \<and> pl ! 53 = star"
  shows "data_done (pre @ pl) (int (length pre) + int m) = Inr (True, pre @ pl)"
proof -
  let ?s = "length pre"
  have nl: "n < length pl"
    using strlen_Inr[OF str(1)] by simp
  have ne: "\<forall>i<?s. (pre @ pl) ! i \<noteq> star"
    using pre by (auto simp: nth_append dest: nth_mem)
  have mc: "memchr (pre @ pl) star (nat (int ?s + int m)) = Inr (Some ?s)"
  proof -
    have "nat (int ?s + int m) = ?s + m"
      by (simp add: nat_int_add)
    moreover have "pl \<noteq> []"
      using nl by auto
    ultimately show ?thesis
      unfolding memchr_Some_iff using m first ne by (simp add: nth_append)
  qed
  have ac: "autocorrect (drop ?s (pre @ pl)) = Inr pl"
  proof (cases "int n \<le> DATA_LENGTH")
    case True
    with str show ?thesis by (simp add: autocorrect_short)
  next
    case False
    then have "autocorrect pl = Inr (autocorrect_body pl)"
      using str by (simp add: autocorrect_long)
    with offs show ?thesis by (simp add: autocorrect_body_noop)
  qed
  have cs: "c_string pl = take n pl" "length (c_string pl) = n"
    using str strlen_length_c_string[OF str(1)] by (simp_all add: strlen_c_string)
  have "8 \<le> length (filter (\<lambda>c. c = star) (take n pl))"
    using str(2) nl first offs by (intro eight_stars) simp_all
  then have st: "\<not> stars_of pl < 7"
    by (simp add: stars_of_def cs(1))
  have "DATA_LENGTH \<le> (int ?s + int m) - int ?s"
    using m by (simp add: DATA_LENGTH_def)
  from data_done_at[OF mc this] ac st cs(2) str(2) show ?thesis
    by simp
qed

theorem data_done_accepts_well_formed_witness:
  "star \<notin> set preamble \<and> strlen (printout @ [NUL]) = Inr 54 \<and>
   data_done (preamble @ printout @ [NUL]) 65 = Inr (True, preamble @ printout @ [NUL])"
proof -
  have 1: "star \<notin> set preamble"
    by (simp add: preamble_def star_def NUL_def)
  have 2: "strlen (printout @ [NUL]) = Inr 54"
    by (simp add: printout_def NUL_def)
  have 3: "(printout @ [NUL]) ! 0 = star"
    by (simp add: printout_def star_def)
  have 4: "(printout @ [NUL]) ! 11 = star \<and> (printout @ [NUL]) ! 17 = star \<and>
           (printout @ [NUL]) ! 24 = star \<and> (printout @ [NUL]) ! 29 = star \<and>
           (printout @ [NUL]) ! 33 = star \<and> (printout @ [NUL]) ! 47 = star \<and>
           (printout @ [NUL]) ! 53 = star"
    by (simp add: printout_def star_def)
  have 5: "int (length preamble) + int 54 = 65"
    by (simp add: preamble_def)
  from data_done_accepts_well_formed[OF 1 2 _ _ 3 4, of 54] 1 2 show ?thesis
    unfolding 5 by simp
qed

text \<open>
  Claim C1 as the specification words it fails: the seven offsets of \<open>dropout\<close> hold
  \<open>*\<close> and 54 bytes follow its first \<open>*\<close>, but a zero byte at offset 5 ends the string
  there and the validator answers incomplete.
\<close>

theorem data_done_rejects_zero_byte_inside:
  "dropout ! 0 = star \<and> dropout ! 11 = star \<and> dropout ! 17 = star \<and> dropout ! 24 = star \<and>
   dropout ! 29 = star \<and> dropout ! 33 = star \<and> dropout ! 47 = star \<and> dropout ! 53 = star \<and>
   length dropout = 55 \<and> dropout ! 54 = NUL \<and>
   data_done dropout 54 = Inr (False, dropout)"
  by (simp add: dropout_def star_def NUL_def data_done_def DATA_LENGTH_def DATA_STARS_def
      autocorrect_def eval_nat_numeral)

lemma strlen_exists: "i < length d \<Longrightarrow> d ! i = NUL \<Longrightarrow> \<exists>n\<le>i. strlen d = Inr n"
proof (induction d arbitrary: i)
  case Nil
  then show ?case by simp
next
  case (Cons c cs)
  show ?case
  proof (cases "c = NUL")
    case True
    then show ?thesis by simp
  next
    case False
    with Cons.prems obtain j where j: "i = Suc j" by (cases i) auto
    with Cons.prems have "j < length cs" "cs ! j = NUL" by simp_all
    from Cons.IH[OF this] obtain n where "n \<le> j" "strlen cs = Inr n" by blast
    with False j show ?thesis by simp
  qed
qed

lemma data_done_valid:
  assumes "data_done mem len = Inr (True, mem')"
  shows "\<exists>s data. memchr mem star (nat len) = Inr (Some s) \<and> DATA_LENGTH \<le> len - int s \<and>
           autocorrect (drop s mem) = Inr data \<and> mem' = take s mem @ data \<and>
           7 \<le> stars_of data \<and> 53 \<le> length (c_string data)"
proof -
  from assms obtain s where mc: "memchr mem star (nat len) = Inr (Some s)"
    by (auto simp: data_done_def split: if_splits sum.splits option.splits)
  have ge: "DATA_LENGTH \<le> len - int s"
    using assms mc data_done_early[OF mc] by (cases "len - int s < DATA_LENGTH") auto
  from assms data_done_at[OF mc ge] obtain data where
    "autocorrect (drop s mem) = Inr data" "mem' = take s mem @ data"
    "7 \<le> stars_of data" "53 \<le> length (c_string data)"
    by (auto split: sum.splits if_splits)
  with mc ge show ?thesis by blast
qed

lemma data_done_valid_after:
  assumes "data_done mem len = Inr (True, mem')"
  shows "\<exists>s. memchr mem' star (nat len) = Inr (Some s) \<and> int s + DATA_LENGTH \<le> len \<and>
           length mem' = length mem \<and>
           7 \<le> stars_of (drop s mem') \<and> 53 \<le> length (c_string (drop s mem'))"
proof -
  from data_done_valid[OF assms] obtain s data where
    mc: "memchr mem star (nat len) = Inr (Some s)" and ge: "DATA_LENGTH \<le> len - int s"
    and ac: "autocorrect (drop s mem) = Inr data" and eq: "mem' = take s mem @ data"
    and st: "7 \<le> stars_of data" "53 \<le> length (c_string data)"
    by blast
  from mc have s: "s < nat len" "s < length mem" "mem ! s = star" "\<forall>i<s. mem ! i \<noteq> star"
    unfolding memchr_Some_iff by simp_all
  have len: "length data = length (drop s mem)" and d0: "data ! 0 = drop s mem ! 0"
    using autocorrect_strlen[OF ac] autocorrect_nth_0[OF ac] by simp_all
  have lt: "length (take s mem) = s" using s(2) by simp
  have "mem' ! s = star"
    using s(2,3) d0 unfolding eq by (simp add: nth_append lt)
  moreover have "\<forall>i<s. mem' ! i \<noteq> star"
    using s(2,4) unfolding eq by (simp add: nth_append lt)
  moreover have "length mem' = length mem"
    using len s(2) unfolding eq by simp
  ultimately have "memchr mem' star (nat len) = Inr (Some s)"
    unfolding memchr_Some_iff using s(1,2) by simp
  moreover have "drop s mem' = data"
    unfolding eq using lt by simp
  ultimately show ?thesis using st ge \<open>length mem' = length mem\<close> by auto
qed




text \<open>
  Claim C8, as the code has it. The \<open>*\<close> are counted after the autocorrection pass: when
  the corrected string at the first \<open>*\<close> has fewer than seven \<open>*\<close> before its first zero
  byte, the validator answers incomplete; and whenever it answers valid, the buffer it
  leaves has at least seven \<open>*\<close> in the string at its first \<open>*\<close>.
\<close>

theorem data_done_needs_seven_stars:
  "(\<forall>s data. memchr mem star (nat len) = Inr (Some s) \<and>
       autocorrect (drop s mem) = Inr data \<and> stars_of data < 7 \<longrightarrow>
       (\<exists>mem'. data_done mem len = Inr (False, mem'))) \<and>
   (\<forall>mem'. data_done mem len = Inr (True, mem') \<longrightarrow>
       (\<exists>s. memchr mem' star (nat len) = Inr (Some s) \<and> 7 \<le> stars_of (drop s mem')))"
proof (intro conjI allI impI)
  fix s data
  assume a: "memchr mem star (nat len) = Inr (Some s) \<and>
       autocorrect (drop s mem) = Inr data \<and> stars_of data < 7"
  show "\<exists>mem'. data_done mem len = Inr (False, mem')"
  proof (cases "len - int s < DATA_LENGTH")
    case True
    with a data_done_early[of mem len s] show ?thesis by blast
  next
    case False
    then have "DATA_LENGTH \<le> len - int s" by simp
    with a data_done_at[of mem len s] show ?thesis by simp
  qed
next
  fix mem'
  assume "data_done mem len = Inr (True, mem')"
  from data_done_valid_after[OF this]
  show "\<exists>s. memchr mem' star (nat len) = Inr (Some s) \<and> 7 \<le> stars_of (drop s mem')"
    by blast
qed

theorem data_done_needs_seven_stars_witness:
  "memchr unfixable star (nat 55) = Inr (Some 0) \<and> autocorrect unfixable = Inr unfixable \<and>
   stars_of unfixable = 6 \<and> (\<exists>mem'. data_done unfixable 55 = Inr (False, mem')) \<and>
   data_done (printout @ [NUL]) 54 = Inr (True, printout @ [NUL]) \<and>
   (\<exists>s. memchr (printout @ [NUL]) star (nat 54) = Inr (Some s) \<and>
        7 \<le> stars_of (drop s (printout @ [NUL])))"
proof -
  have 1: "memchr unfixable star (nat 55) = Inr (Some 0)"
    by (simp add: unfixable_def star_def eval_nat_numeral)
  have 2: "autocorrect unfixable = Inr unfixable"
    by (simp add: unfixable_def autocorrect_def NUL_def DATA_LENGTH_def autocorrect_body_def
        AUTOCORRECT_def star_def isdigit_def is_d_def TRUE_def)
  have 3: "stars_of unfixable = 6"
    by (simp add: stars_of_def c_string_def unfixable_def star_def NUL_def)
  have 4: "data_done (printout @ [NUL]) 54 = Inr (True, printout @ [NUL])"
    by (simp add: printout_def star_def NUL_def data_done_def DATA_LENGTH_def DATA_STARS_def
        autocorrect_def eval_nat_numeral)
  have 5: "drop 0 unfixable = unfixable"
    by simp
  have 6: "stars_of unfixable < 7"
    using 3 by simp
  from data_done_needs_seven_stars[of unfixable 55, THEN conjunct1, rule_format, of 0 unfixable]
    1 2 5 6
  have a: "\<exists>mem'. data_done unfixable 55 = Inr (False, mem')"
    by simp
  from data_done_needs_seven_stars[of "printout @ [NUL]" 54, THEN conjunct2, rule_format,
      of "printout @ [NUL]"] 4
  have b: "\<exists>s. memchr (printout @ [NUL]) star (nat 54) = Inr (Some s) \<and>
        7 \<le> stars_of (drop s (printout @ [NUL]))"
    by blast
  from 1 2 3 4 a b show ?thesis
    by simp
qed

text \<open>
  Claim C8 as the specification words it fails: the string \<open>garbled2\<close> holds six \<open>*\<close>,
  the pass restores the two that were lost, and the validator answers valid.
\<close>

theorem data_done_accepts_six_stars_after_fixup:
  "stars_of garbled2 = 6 \<and> data_done garbled2 55 = Inr (True, printout @ ''!'' @ [NUL])"
  by (simp add: stars_of_def c_string_def garbled2_def printout_def star_def NUL_def
      data_done_def DATA_LENGTH_def DATA_STARS_def autocorrect_def autocorrect_body_def
      AUTOCORRECT_def isdigit_def is_d_def TRUE_def eval_nat_numeral)

subsection \<open>The loop\<close>

lemma read_fd_bounds:
  assumes "read_fd fd n = (res, bytes, fd')"
  shows "res \<le> int n \<and> (0 < res \<longrightarrow> int (length bytes) = res)"
proof (cases fd)
  case Nil
  with assms show ?thesis by auto
next
  case (Cons e rest)
  with assms show ?thesis
    by (cases e) (auto split: if_splits)
qed

lemma autocorrect_total:
  assumes "strlen d = Inr n"
  shows "\<exists>d'. autocorrect d = Inr d' \<and> length d' = length d"
  using assms by (simp add: autocorrect_def autocorrect_body_length)

lemma data_done_total:
  assumes "0 \<le> len" "nat len < length mem" "mem ! nat len = NUL"
  shows "\<exists>ok mem'. data_done mem len = Inr (ok, mem') \<and> length mem' = length mem"
proof (cases "memchr mem star (nat len)")
  case (Inl e)
  with memchr_no_fault[of "nat len" mem star e] assms(2) show ?thesis by simp
next
  case (Inr r)
  show ?thesis
  proof (cases r)
    case None
    with Inr have "data_done mem len = Inr (False, mem)" by (simp add: data_done_def)
    then show ?thesis by blast
  next
    case (Some s)
    with Inr have mc: "memchr mem star (nat len) = Inr (Some s)" by simp
    then have s: "s < nat len" "s < length mem" unfolding memchr_Some_iff by simp_all
    show ?thesis
    proof (cases "len - int s < DATA_LENGTH")
      case True
      with mc have "data_done mem len = Inr (False, mem)" by (rule data_done_early)
      then show ?thesis by blast
    next
      case False
      then have ge: "DATA_LENGTH \<le> len - int s" by simp
      have "nat len - s < length (drop s mem)" "drop s mem ! (nat len - s) = NUL"
        using s assms by simp_all
      from strlen_exists[OF this] obtain n where "strlen (drop s mem) = Inr n" by blast
      from autocorrect_total[OF this] obtain d' where
        d': "autocorrect (drop s mem) = Inr d'" "length d' = length (drop s mem)" by blast
      have "length (take s mem @ d') = length mem" using d'(2) s(2) by simp
      with data_done_at[OF mc ge] d'(1) show ?thesis by auto
    qed
  qed
qed

lemma decide_cases:
  assumes "data_done (buf s) (bytes_read s) = Inr (ok, b)"
  shows "decide s fd =
     (if ok then Break SUCCESS (s\<lparr>buf := b, success := True\<rparr>) fd
      else if is_corrupted b (bytes_read s) then
        (if reset s + 1 = 2 then Break ABORTED (s\<lparr>buf := b, reset := reset s + 1\<rparr>) fd
         else Continue (s\<lparr>buf := b, reset := reset s + 1, bytes_read := 0, left := 512, pos := 0\<rparr>) fd)
      else Continue (s\<lparr>buf := b\<rparr>) fd)"
  using assms by (simp add: decide_def Let_def)

lemma decide_inv:
  assumes len: "length (buf s) = 512"
    and br: "0 \<le> bytes_read s" "bytes_read s + int (left s) = 512" "1 \<le> left s"
    and ps: "int (pos s) = bytes_read s"
    and nul: "buf s ! nat (bytes_read s) = NUL"
    and rs: "reset s = 0 \<or> reset s = 1" and ns: "\<not> success s"
  shows "decide s fd \<noteq> Fault"
    and "decide s fd = Continue s' fd' \<Longrightarrow> loop_inv s' \<and> trace s' = trace s"
    and "decide s fd = Break oc s' fd' \<Longrightarrow>
           length (buf s') = 512 \<and> bytes_read s' = bytes_read s \<and> trace s' = trace s \<and>
           oc \<noteq> CLOSED \<and> (oc = ABORTED \<longleftrightarrow> reset s' = 2) \<and> (oc = SUCCESS \<longleftrightarrow> success s') \<and>
           (reset s' = 0 \<or> reset s' = 1 \<or> reset s' = 2) \<and>
           (oc = SUCCESS \<longrightarrow> (\<exists>m. data_done m (bytes_read s') = Inr (True, buf s')))"
proof -
  have "nat (bytes_read s) < length (buf s)" using br len by simp
  from data_done_total[OF br(1) this nul] obtain ok b where
    dd: "data_done (buf s) (bytes_read s) = Inr (ok, b)" "length b = 512"
    using len by auto
  note dc = decide_cases[OF dd(1), of fd]
  show "decide s fd \<noteq> Fault" unfolding dc by simp
  show "loop_inv s' \<and> trace s' = trace s" if "decide s fd = Continue s' fd'"
    using that len br ps rs ns dd(2) unfolding dc
    by (auto simp: loop_inv_def split: if_splits)
  show "length (buf s') = 512 \<and> bytes_read s' = bytes_read s \<and> trace s' = trace s \<and>
           oc \<noteq> CLOSED \<and> (oc = ABORTED \<longleftrightarrow> reset s' = 2) \<and> (oc = SUCCESS \<longleftrightarrow> success s') \<and>
           (reset s' = 0 \<or> reset s' = 1 \<or> reset s' = 2) \<and>
           (oc = SUCCESS \<longrightarrow> (\<exists>m. data_done m (bytes_read s') = Inr (True, buf s')))"
    if "decide s fd = Break oc s' fd'"
    using that len br ps rs ns dd unfolding dc
    by (auto split: if_splits)
qed

lemma store_ok:
  assumes "p + length bytes \<le> length mem"
  shows "\<exists>b. store mem p bytes = Inr b \<and> length b = length mem"
  using assms by (simp add: store_def)

lemma store_at_ok:
  assumes "0 \<le> i" "i < int (length mem)"
  shows "store_at mem i c = Inr (mem[nat i := c])"
  using assms by (simp add: store_at_def)

lemma decide_reset:
  assumes len: "length (buf s) = 512"
    and br: "0 \<le> bytes_read s" "bytes_read s + int (left s) = 512" "1 \<le> left s"
    and nul: "buf s ! nat (bytes_read s) = NUL"
    and rs: "reset s = 0 \<or> reset s = 1" and ns: "\<not> success s"
  shows "decide s fd = Continue s' fd' \<Longrightarrow>
           (reset s' = reset s \<and> bytes_read s' = bytes_read s) \<or>
           (reset s = 0 \<and> reset s' = 1 \<and> bytes_read s' = 0 \<and> left s' = 512 \<and> pos s' = 0)"
    and "decide s fd = Break oc s' fd' \<Longrightarrow>
           (oc = ABORTED \<longrightarrow> reset s = 1 \<and> reset s' = 2 \<and> \<not> success s') \<and>
           (oc \<noteq> ABORTED \<longrightarrow> reset s' = reset s)"
proof -
  have "nat (bytes_read s) < length (buf s)"
    using br len by simp
  from data_done_total[OF br(1) this nul] obtain ok b where
    dd: "data_done (buf s) (bytes_read s) = Inr (ok, b)"
    by auto
  note dc = decide_cases[OF dd, of fd]
  show "(reset s' = reset s \<and> bytes_read s' = bytes_read s) \<or>
        (reset s = 0 \<and> reset s' = 1 \<and> bytes_read s' = 0 \<and> left s' = 512 \<and> pos s' = 0)"
    if "decide s fd = Continue s' fd'"
    using that rs unfolding dc by (auto split: if_splits)
  show "(oc = ABORTED \<longrightarrow> reset s = 1 \<and> reset s' = 2 \<and> \<not> success s') \<and>
        (oc \<noteq> ABORTED \<longrightarrow> reset s' = reset s)"
    if "decide s fd = Break oc s' fd'"
    using that rs ns unfolding dc by (auto split: if_splits)
qed

lemma iteration_shape:
  assumes inv: "loop_inv s"
  obtains (closed) fd1 where
      "iteration s fd = Break CLOSED (s\<lparr>trace := trace s @ [SockRead (size_t_sub (left s) 1)]\<rparr>) fd1"
  | (data) s2 fd1 where "iteration s fd = decide s2 fd1"
      "length (buf s2) = 512" "0 \<le> bytes_read s2" "bytes_read s2 + int (left s2) = 512"
      "1 \<le> left s2" "int (pos s2) = bytes_read s2" "buf s2 ! nat (bytes_read s2) = NUL"
      "reset s2 = reset s" "success s2 = success s" "bytes_read s < bytes_read s2"
      "trace s2 = trace s @ [SockRead (size_t_sub (left s) 1)]"
proof -
  from inv have len: "length (buf s) = 512" and br: "0 \<le> bytes_read s"
    "bytes_read s + int (left s) = 512" "1 \<le> left s" and ps: "int (pos s) = bytes_read s"
    by (simp_all add: loop_inv_def)
  let ?count = "size_t_sub (left s) 1"
  have count: "?count = left s - 1"
    using br(3) by (simp add: size_t_sub_def)
  obtain res bytes fd1 where r: "read_fd fd ?count = (res, bytes, fd1)"
    by (cases "read_fd fd ?count") auto
  from read_fd_bounds[OF r] have rb: "res \<le> int (left s) - 1"
    "0 < res \<Longrightarrow> int (length bytes) = res"
    using count br(3) by auto
  let ?s0 = "s\<lparr>trace := trace s @ [SockRead ?count]\<rparr>"
  show thesis
  proof (cases "res \<le> 0")
    case True
    then have "iteration s fd = Break CLOSED ?s0 fd1"
      using r by (simp add: iteration_def)
    then show thesis by (rule closed)
  next
    case False
    then have data': "0 < res" by simp
    have lb: "int (length bytes) = res"
      using rb(2) data' by simp
    have fit: "pos s + length bytes \<le> length (buf s)"
      using lb rb(1) ps br len by linarith
    from store_ok[OF fit] obtain b1 where b1: "store (buf s) (pos s) bytes = Inr b1"
      "length b1 = 512"
      using len by auto
    let ?br = "bytes_read s + res"
    have brn: "0 \<le> ?br" "?br \<le> 511"
      using br data' rb(1) by linarith+
    have left': "size_t_sub (left s) (nat res) = left s - nat res" "1 \<le> left s - nat res"
      "?br + int (left s - nat res) = 512"
      using rb(1) data' br by (auto simp: size_t_sub_def)
    let ?b2 = "b1[nat ?br := NUL]"
    have b2: "store_at b1 ?br NUL = Inr ?b2"
      using brn b1(2) by (intro store_at_ok) simp_all
    let ?s1 = "?s0\<lparr>buf := b1, pos := pos s + nat res, left := size_t_sub (left s) (nat res),
                   bytes_read := ?br\<rparr>"
    let ?s2 = "?s1\<lparr>buf := ?b2\<rparr>"
    have it: "iteration s fd = decide ?s2 fd1"
      using r data' b1(1) b2 by (simp add: iteration_def Let_def)
    show thesis
    proof (rule data[OF it])
      show "length (buf ?s2) = 512" using b1(2) by simp
      show "0 \<le> bytes_read ?s2" "bytes_read ?s2 + int (left ?s2) = 512" "1 \<le> left ?s2"
        using brn left' by simp_all
      show "int (pos ?s2) = bytes_read ?s2" using ps data' by simp
      show "buf ?s2 ! nat (bytes_read ?s2) = NUL" using brn b1(2) by simp
      show "reset ?s2 = reset s" "success ?s2 = success s" by simp_all
      show "bytes_read s < bytes_read ?s2" using data' by simp
      show "trace ?s2 = trace s @ [SockRead ?count]" by simp
    qed
  qed
qed

lemma iteration_inv:
  assumes inv: "loop_inv s"
  shows "iteration s fd \<noteq> Fault"
    and "iteration s fd = Continue s' fd' \<Longrightarrow>
           loop_inv s' \<and> trace s' = trace s @ [SockRead (size_t_sub (left s) 1)]"
    and "iteration s fd = Break oc s' fd' \<Longrightarrow>
           loop_post oc s' \<and> trace s' = trace s @ [SockRead (size_t_sub (left s) 1)]"
proof -
  from inv have len: "length (buf s) = 512" and br: "0 \<le> bytes_read s"
    "bytes_read s + int (left s) = 512" "1 \<le> left s"
    and rs: "reset s = 0 \<or> reset s = 1" and ns: "\<not> success s"
    by (simp_all add: loop_inv_def)
  have "iteration s fd \<noteq> Fault \<and>
     (iteration s fd = Continue s' fd' \<longrightarrow>
        loop_inv s' \<and> trace s' = trace s @ [SockRead (size_t_sub (left s) 1)]) \<and>
     (iteration s fd = Break oc s' fd' \<longrightarrow>
        loop_post oc s' \<and> trace s' = trace s @ [SockRead (size_t_sub (left s) 1)])"
    using inv
  proof (cases rule: iteration_shape[where fd = fd])
    case (closed fd1)
    have "loop_post CLOSED (s\<lparr>trace := trace s @ [SockRead (size_t_sub (left s) 1)]\<rparr>)"
      using len br rs ns by (auto simp: loop_post_def)
    with closed show ?thesis by auto
  next
    case (data s2 fd1)
    have d5: "reset s2 = 0 \<or> reset s2 = 1" using rs data(8) by simp
    have d6: "\<not> success s2" using ns data(9) by simp
    note di = decide_inv[OF data(2,3,4,5,6,7) d5 d6]
    have le: "bytes_read s2 \<le> 511" using data(4,5) by linarith
    have "decide s2 fd1 \<noteq> Fault" by (rule di(1))
    moreover have "loop_inv s' \<and> trace s' = trace s @ [SockRead (size_t_sub (left s) 1)]"
      if "decide s2 fd1 = Continue s' fd'"
      using di(2)[OF that] data(11) by simp
    moreover have "loop_post oc s' \<and> trace s' = trace s @ [SockRead (size_t_sub (left s) 1)]"
      if "decide s2 fd1 = Break oc s' fd'"
      using di(3)[OF that] data(3,11) le unfolding loop_post_def by auto
    ultimately show ?thesis unfolding data(1) by blast
  qed
  then show "iteration s fd \<noteq> Fault"
    and "iteration s fd = Continue s' fd' \<Longrightarrow>
           loop_inv s' \<and> trace s' = trace s @ [SockRead (size_t_sub (left s) 1)]"
    and "iteration s fd = Break oc s' fd' \<Longrightarrow>
           loop_post oc s' \<and> trace s' = trace s @ [SockRead (size_t_sub (left s) 1)]"
    by blast+
qed

lemma iteration_reset:
  assumes inv: "loop_inv s"
  shows "iteration s fd = Continue s' fd' \<Longrightarrow>
           (reset s' = reset s \<and> bytes_read s < bytes_read s') \<or>
           (reset s = 0 \<and> reset s' = 1 \<and> bytes_read s' = 0 \<and> left s' = 512 \<and> pos s' = 0)"
    and "iteration s fd = Break oc s' fd' \<Longrightarrow>
           (oc = ABORTED \<longrightarrow> reset s = 1 \<and> reset s' = 2 \<and> \<not> success s') \<and>
           (oc \<noteq> ABORTED \<longrightarrow> reset s' = reset s)"
proof -
  from inv have rs: "reset s = 0 \<or> reset s = 1" and ns: "\<not> success s"
    by (simp_all add: loop_inv_def)
  have "(iteration s fd = Continue s' fd' \<longrightarrow>
           (reset s' = reset s \<and> bytes_read s < bytes_read s') \<or>
           (reset s = 0 \<and> reset s' = 1 \<and> bytes_read s' = 0 \<and> left s' = 512 \<and> pos s' = 0)) \<and>
        (iteration s fd = Break oc s' fd' \<longrightarrow>
           (oc = ABORTED \<longrightarrow> reset s = 1 \<and> reset s' = 2 \<and> \<not> success s') \<and>
           (oc \<noteq> ABORTED \<longrightarrow> reset s' = reset s))"
    using inv
  proof (cases rule: iteration_shape[where fd = fd])
    case (closed fd1)
    then show ?thesis by auto
  next
    case (data s2 fd1)
    have d5: "reset s2 = 0 \<or> reset s2 = 1" using rs data(8) by simp
    have d6: "\<not> success s2" using ns data(9) by simp
    note dr = decide_reset[OF data(2,3,4,5,7) d5 d6]
    show ?thesis
      unfolding data(1) using dr(1)[of fd1 s' fd'] dr(2)[of fd1 oc s' fd'] data(8,10)
      by auto
  qed
  then show "iteration s fd = Continue s' fd' \<Longrightarrow>
           (reset s' = reset s \<and> bytes_read s < bytes_read s') \<or>
           (reset s = 0 \<and> reset s' = 1 \<and> bytes_read s' = 0 \<and> left s' = 512 \<and> pos s' = 0)"
    and "iteration s fd = Break oc s' fd' \<Longrightarrow>
           (oc = ABORTED \<longrightarrow> reset s = 1 \<and> reset s' = 2 \<and> \<not> success s') \<and>
           (oc \<noteq> ABORTED \<longrightarrow> reset s' = reset s)"
    by blast+
qed

lemma handler_loop_post:
  assumes "loop_inv s"
  shows "\<exists>oc s' fd'. handler_loop s fd = Some (oc, s', fd') \<and> loop_post oc s' \<and>
           (\<exists>ns. trace s' = trace s @ map SockRead ns)"
  using assms
proof (induction s fd rule: handler_loop.induct)
  case (1 s fd)
  show ?case
  proof (cases "iteration s fd")
    case (Continue s1 fd1)
    from iteration_inv(2)[OF "1.prems" Continue] have s1: "loop_inv s1"
      "trace s1 = trace s @ [SockRead (size_t_sub (left s) 1)]"
      by simp_all
    from "1.IH"[OF Continue s1(1)] obtain oc s' fd' ns where
      r: "handler_loop s1 fd1 = Some (oc, s', fd')" "loop_post oc s'"
      "trace s' = trace s1 @ map SockRead ns"
      by blast
    have "trace s' = trace s @ map SockRead (size_t_sub (left s) 1 # ns)"
      using r(3) s1(2) by simp
    with r(1,2) Continue show ?thesis
      by (simp add: handler_loop.simps[of s fd] del: map_eq_Cons_conv list.map) blast
  next
    case (Break oc s1 fd1)
    from iteration_inv(3)[OF "1.prems" Break] have "loop_post oc s1"
      "trace s1 = trace s @ map SockRead [size_t_sub (left s) 1]"
      by simp_all
    with Break show ?thesis
      by (simp add: handler_loop.simps[of s fd] del: list.map) blast
  next
    case Fault
    with iteration_inv(1)[OF "1.prems", of fd] show ?thesis
      by simp
  qed
qed

lemma init_inv: "length stack = 512 \<Longrightarrow> loop_inv (init_session stack)"
  by (simp add: loop_inv_def init_session_def)

lemma reaches_inv:
  assumes "loop_reaches c c'" "loop_inv (fst c)"
  shows "loop_inv (fst c')"
  using assms
proof (induction rule: loop_reaches.induct)
  case (start c)
  then show ?case by simp
next
  case (pass c s fd s' fd')
  then have "loop_inv s" by simp
  from iteration_inv(2)[OF this pass.hyps(2)] show ?case by simp
qed

text \<open>
  Claim C9. Whenever the loop begins a pass, the fill length is between 0 and 511 and the
  read is asked for exactly \<open>511 - bytes_read\<close> bytes, so that whatever it returns the new
  fill length is at most 511. The pass never writes or reads outside the 512-byte array
  (the received bytes and the terminator at index \<open>bytes_read\<close> are inside it), a pass
  that leaves the loop leaves a fill length of at most 511, and the loop ends.
\<close>

theorem fill_length_stays_below_capacity:
  assumes "length stack = 512" and "loop_reaches (init_session stack, fd0) (s, fd)"
  shows "0 \<le> bytes_read s \<and> bytes_read s \<le> 511 \<and> length (buf s) = 512 \<and>
         int (size_t_sub (left s) 1) = 511 - bytes_read s \<and>
         (\<forall>res bytes fd'. read_fd fd (size_t_sub (left s) 1) = (res, bytes, fd') \<longrightarrow>
            bytes_read s + res \<le> 511) \<and>
         iteration s fd \<noteq> Fault \<and>
         (\<forall>oc s' fd'. iteration s fd = Break oc s' fd' \<longrightarrow>
            0 \<le> bytes_read s' \<and> bytes_read s' \<le> 511 \<and> length (buf s') = 512) \<and>
         handler_loop s fd \<noteq> None"
proof -
  have "loop_inv (fst (s, fd))"
    using assms(2) by (rule reaches_inv) (simp add: init_inv assms(1))
  then have inv: "loop_inv s" by simp
  then have len: "length (buf s) = 512" and br: "0 \<le> bytes_read s"
    "bytes_read s + int (left s) = 512" "1 \<le> left s"
    by (simp_all add: loop_inv_def)
  have count: "int (size_t_sub (left s) 1) = 511 - bytes_read s"
    using br by (simp add: size_t_sub_def)
  have rd: "bytes_read s + res \<le> 511" if "read_fd fd (size_t_sub (left s) 1) = (res, bytes, fd')"
    for res bytes fd'
    using read_fd_bounds[OF that] count by simp
  have brk: "0 \<le> bytes_read s' \<and> bytes_read s' \<le> 511 \<and> length (buf s') = 512"
    if "iteration s fd = Break oc s' fd'" for oc s' fd'
    using iteration_inv(3)[OF inv that] by (simp add: loop_post_def)
  have "handler_loop s fd \<noteq> None"
    using handler_loop_post[OF inv, of fd] by auto
  with len br count rd brk iteration_inv(1)[OF inv, of fd] show ?thesis
    by (intro conjI allI impI) simp_all
qed

theorem fill_length_stays_below_capacity_witness:
  "length stack0 = 512 \<and>
   loop_reaches (init_session stack0, twice_corrupted)
     (after_first_reset, [Bytes noise_late, Bytes ''abc'']) \<and>
   bytes_read after_first_reset \<le> 511 \<and>
   iteration after_first_reset [Bytes noise_late, Bytes ''abc''] \<noteq> Fault"
proof -
  have 1: "length stack0 = 512"
    by (simp add: stack0_def)
  have 2: "iteration (init_session stack0) twice_corrupted =
      Continue after_first_reset [Bytes noise_late, Bytes ''abc'']"
    by code_simp
  have 3: "loop_reaches (init_session stack0, twice_corrupted)
      (after_first_reset, [Bytes noise_late, Bytes ''abc''])"
    by (rule loop_reaches.pass[OF loop_reaches.start 2])
  from fill_length_stays_below_capacity[OF 1 3] 1 3 show ?thesis
    by simp
qed

lemma detector_meaning:
  assumes "nat len \<le> length mem"
  shows "is_corrupted mem len \<longleftrightarrow>
    DATA_LENGTH < len \<and>
    (\<exists>i. 30 \<le> i \<and> i + 3 \<le> nat len \<and>
         (take 3 (drop i mem) = marker1 \<or> take 3 (drop i mem) = marker2))"
proof (cases "DATA_LENGTH < len")
  case False
  then show ?thesis by (simp add: is_corrupted_def)
next
  case True
  have n: "30 \<le> nat len" "nat (len - 30) = nat len - 30"
    using True by (simp_all add: DATA_LENGTH_def)
  have m: "marker1 \<noteq> []" "marker2 \<noteq> []" and l: "length marker1 = 3" "length marker2 = 3"
    by (simp_all add: marker1_def marker2_def)
  let ?hay = "take (nat len - 30) (drop 30 mem)"
  have 1: "memmem ?hay marker1 \<noteq> None \<longleftrightarrow>
      (\<exists>i. 30 \<le> i \<and> i + 3 \<le> nat len \<and> take 3 (drop i mem) = marker1)"
    unfolding memmem_found_iff[OF m(1)] l by (rule window_from_30[OF n(1) assms])
  have 2: "memmem ?hay marker2 \<noteq> None \<longleftrightarrow>
      (\<exists>i. 30 \<le> i \<and> i + 3 \<le> nat len \<and> take 3 (drop i mem) = marker2)"
    unfolding memmem_found_iff[OF m(2)] l by (rule window_from_30[OF n(1) assms])
  have "is_corrupted mem len \<longleftrightarrow>
      (memmem ?hay marker1 \<noteq> None \<or> memmem ?hay marker2 \<noteq> None)"
    using True by (simp add: is_corrupted_def n(2))
  also have "\<dots> \<longleftrightarrow>
      ((\<exists>i. 30 \<le> i \<and> i + 3 \<le> nat len \<and> take 3 (drop i mem) = marker1) \<or>
       (\<exists>i. 30 \<le> i \<and> i + 3 \<le> nat len \<and> take 3 (drop i mem) = marker2))"
    unfolding 1 2 by (rule refl)
  also have "\<dots> \<longleftrightarrow> (\<exists>i. 30 \<le> i \<and> i + 3 \<le> nat len \<and>
         (take 3 (drop i mem) = marker1 \<or> take 3 (drop i mem) = marker2))"
    by blast
  finally show ?thesis using True by simp
qed

lemma iteration_closed:
  assumes "read_fd fd (size_t_sub (left s) 1) = (res, bytes, fd1)" and "res \<le> 0"
  shows "iteration s fd =
     Break CLOSED (s\<lparr>trace := trace s @ [SockRead (size_t_sub (left s) 1)]\<rparr>) fd1"
  using assms by (simp add: iteration_def)

lemma iteration_received:
  assumes inv: "loop_inv s"
    and r: "read_fd fd (size_t_sub (left s) 1) = (res, bytes, fd1)" and pos: "0 < res"
  shows "iteration s fd = decide (received s res bytes) fd1"
    and "length (buf (received s res bytes)) = 512"
    and "bytes_read (received s res bytes) = bytes_read s + res"
    and "0 \<le> bytes_read s + res" and "bytes_read s + res \<le> 511"
    and "buf (received s res bytes) ! nat (bytes_read s + res) = NUL"
    and "reset (received s res bytes) = reset s"
    and "success (received s res bytes) = success s"
proof -
  from inv have len: "length (buf s) = 512" and br: "0 \<le> bytes_read s"
    "bytes_read s + int (left s) = 512" "1 \<le> left s" and ps: "int (pos s) = bytes_read s"
    by (simp_all add: loop_inv_def)
  have count: "size_t_sub (left s) 1 = left s - 1"
    using br(3) by (simp add: size_t_sub_def)
  from read_fd_bounds[OF r] have rb: "res \<le> int (left s) - 1" "int (length bytes) = res"
    using count br(3) pos by auto
  have fit: "pos s + length bytes \<le> length (buf s)"
    using rb ps br len by linarith
  let ?b1 = "take (pos s) (buf s) @ bytes @ drop (pos s + length bytes) (buf s)"
  have b1: "store (buf s) (pos s) bytes = Inr ?b1"
    using fit by (simp add: store_def)
  have l1: "length ?b1 = 512"
    using fit len by simp
  show brn: "0 \<le> bytes_read s + res" "bytes_read s + res \<le> 511"
    using br pos rb(1) by linarith+
  have b2: "store_at ?b1 (bytes_read s + res) NUL = Inr (?b1[nat (bytes_read s + res) := NUL])"
    using brn l1 by (intro store_at_ok) simp_all
  show "iteration s fd = decide (received s res bytes) fd1"
    using r pos b1 b2 by (simp add: iteration_def received_def Let_def)
  show "length (buf (received s res bytes)) = 512"
    using l1 by (simp add: received_def)
  show "bytes_read (received s res bytes) = bytes_read s + res"
    by (simp add: received_def)
  show "buf (received s res bytes) ! nat (bytes_read s + res) = NUL"
    using brn l1 by (simp add: received_def)
  show "reset (received s res bytes) = reset s" "success (received s res bytes) = success s"
    by (simp_all add: received_def)
qed

lemma pass_result:
  assumes inv: "loop_inv s"
    and r: "read_fd fd (size_t_sub (left s) 1) = (res, bytes, fd1)" and pos: "0 < res"
  shows "\<exists>ok b. data_done (buf (received s res bytes)) (bytes_read s + res) = Inr (ok, b) \<and>
           length b = 512 \<and>
           (is_corrupted b (bytes_read s + res) \<longleftrightarrow>
              DATA_LENGTH < bytes_read s + res \<and>
              (\<exists>i. 30 \<le> i \<and> i + 3 \<le> nat (bytes_read s + res) \<and>
                   (take 3 (drop i b) = marker1 \<or> take 3 (drop i b) = marker2))) \<and>
           iteration s fd =
             (if ok then Break SUCCESS (received s res bytes\<lparr>buf := b, success := True\<rparr>) fd1
              else if is_corrupted b (bytes_read s + res) then
                (if reset s = 0
                 then Continue (received s res bytes\<lparr>buf := b, reset := 1, bytes_read := 0,
                                  left := 512, pos := 0\<rparr>) fd1
                 else Break ABORTED (received s res bytes\<lparr>buf := b, reset := 2\<rparr>) fd1)
              else Continue (received s res bytes\<lparr>buf := b\<rparr>) fd1)"
proof -
  let ?s2 = "received s res bytes"
  note ir = iteration_received[OF inv r pos]
  from inv have rs: "reset s = 0 \<or> reset s = 1"
    by (simp add: loop_inv_def)
  have lt: "nat (bytes_read s + res) < length (buf ?s2)"
    using ir(2,4,5) by simp
  from data_done_total[OF ir(4) lt ir(6)] obtain ok b where
    dd: "data_done (buf ?s2) (bytes_read s + res) = Inr (ok, b)" and lb: "length b = 512"
    using ir(2) by auto
  have dd': "data_done (buf ?s2) (bytes_read ?s2) = Inr (ok, b)"
    using dd ir(3) by simp
  have "nat (bytes_read s + res) \<le> length b"
    using lb ir(5) by simp
  note dm = detector_meaning[OF this]
  have "iteration s fd =
             (if ok then Break SUCCESS (?s2\<lparr>buf := b, success := True\<rparr>) fd1
              else if is_corrupted b (bytes_read s + res) then
                (if reset s = 0
                 then Continue (?s2\<lparr>buf := b, reset := 1, bytes_read := 0,
                                  left := 512, pos := 0\<rparr>) fd1
                 else Break ABORTED (?s2\<lparr>buf := b, reset := 2\<rparr>) fd1)
              else Continue (?s2\<lparr>buf := b\<rparr>) fd1)"
    unfolding ir(1) decide_cases[OF dd'] using rs ir(3,7) by auto
  with dd lb dm show ?thesis by blast
qed

lemma last_pass:
  assumes "handler_loop s fd = Some (oc, s', fd')"
  shows "\<exists>sl fdl. loop_reaches (s, fd) (sl, fdl) \<and> iteration sl fdl = Break oc s' fd'"
  using assms
proof (induction s fd rule: handler_loop.induct)
  case (1 s fd)
  show ?case
  proof (cases "iteration s fd")
    case (Continue s1 fd1)
    with "1.prems" have "handler_loop s1 fd1 = Some (oc, s', fd')"
      by (simp add: handler_loop.simps[of s fd])
    from "1.IH"[OF Continue this] obtain sl fdl where
      r: "loop_reaches (s1, fd1) (sl, fdl)" "iteration sl fdl = Break oc s' fd'"
      by blast
    have "loop_reaches (s, fd) (s1, fd1)"
      by (rule loop_reaches.pass[OF loop_reaches.start Continue])
    moreover have "loop_reaches c (sl, fdl)" if "loop_reaches c (s1, fd1)" for c
      using r(1) that
    proof (induction "(s1, fd1)" "(sl, fdl)" arbitrary: sl fdl rule: loop_reaches.induct)
      case start
      then show ?case by simp
    next
      case (pass sa fda)
      then show ?case by (blast intro: loop_reaches.pass)
    qed
    ultimately have "loop_reaches (s, fd) (sl, fdl)" by blast
    with r(2) show ?thesis by blast
  next
    case (Break oc1 s1 fd1)
    with "1.prems" have "iteration s fd = Break oc s' fd'"
      by (simp add: handler_loop.simps[of s fd])
    with loop_reaches.start[of "(s, fd)"] show ?thesis by blast
  next
    case Fault
    with "1.prems" show ?thesis
      by (simp add: handler_loop.simps[of s fd])
  qed
qed

lemma first_reset:
  assumes "loop_reaches c (s, fd)" and "loop_inv (fst c)" and "reset (fst c) = 0" and "reset s = 1"
  shows "\<exists>s1 fd1 s1' fd1'. loop_reaches c (s1, fd1) \<and> reset s1 = 0 \<and>
           iteration s1 fd1 = Continue s1' fd1' \<and> reset s1' = 1 \<and> bytes_read s1' = 0"
  using assms
proof (induction c "(s, fd)" arbitrary: s fd rule: loop_reaches.induct)
  case (start c)
  then show ?case by simp
next
  case (pass c s fd s' fd')
  from reaches_inv[OF pass.hyps(1) pass.prems(1)] have inv: "loop_inv s"
    by simp
  from iteration_reset(1)[OF inv pass.hyps(3)] pass.prems(3) consider
    (same) "reset s = 1" | (now) "reset s = 0" "reset s' = 1" "bytes_read s' = 0"
    by auto
  then show ?case
  proof cases
    case same
    from pass.hyps(2)[OF pass.prems(1,2) same] show ?thesis .
  next
    case now
    with pass.hyps(1,3) show ?thesis by blast
  qed
qed

text \<open>
  Claim C2. Every session ends, and it ends as ABORTED exactly when its reset counter is 2;
  the counter is never anything but 0, 1 or 2, and an aborted session has no success.
  While the loop runs the counter is 0 or 1. A pass that continues either leaves the
  counter alone and has added bytes, or has taken the counter from 0 to 1 and emptied the
  buffer (fill length 0, 512 bytes left, writing position 0); a pass that aborts has taken
  the counter from 1 to 2. This is what the decision does when the validator says
  incomplete and the detector says corrupted: at counter 0 it empties the buffer and
  continues, at counter 1 it leaves the loop as ABORTED.

  The counter moves on a detection and on nothing else. A pass whose read returns nothing
  leaves the loop as CLOSED with the variables as they were. A pass that has received
  bytes is decided by the validator and the detector on the received buffer alone:
  valid gives SUCCESS with the counter unchanged; incomplete without a marker (more than
  54 bytes and one of the two markers at offset 30 or later) keeps the bytes and the
  counter and continues; incomplete with a marker is the first detection at counter 0 and
  the second at counter 1. The way a session ends is the way its last pass ends, and a
  pass that begins with counter 1 has a pass before it that took the counter from 0 to 1.
\<close>

theorem aborted_exactly_at_second_reset:
  assumes "length stack = 512"
  shows "(\<exists>oc s fd'. handler_loop (init_session stack) fd0 = Some (oc, s, fd') \<and>
            (oc = ABORTED \<longleftrightarrow> reset s = 2) \<and> (reset s = 0 \<or> reset s = 1 \<or> reset s = 2) \<and>
            (oc = ABORTED \<longrightarrow> \<not> success s)) \<and>
         (\<forall>s fd. loop_reaches (init_session stack, fd0) (s, fd) \<longrightarrow>
            (reset s = 0 \<or> reset s = 1) \<and>
            (\<forall>s' fd'. iteration s fd = Continue s' fd' \<longrightarrow>
               (reset s' = reset s \<and> bytes_read s < bytes_read s') \<or>
               (reset s = 0 \<and> reset s' = 1 \<and> bytes_read s' = 0 \<and> left s' = 512 \<and> pos s' = 0)) \<and>
            (\<forall>oc s' fd'. iteration s fd = Break oc s' fd' \<longrightarrow>
               (oc = ABORTED \<longrightarrow> reset s = 1 \<and> reset s' = 2 \<and> \<not> success s') \<and>
               (oc \<noteq> ABORTED \<longrightarrow> reset s' = reset s))) \<and>
         (\<forall>s fd b. data_done (buf s) (bytes_read s) = Inr (False, b) \<and>
               is_corrupted b (bytes_read s) \<longrightarrow>
            (reset s = 0 \<longrightarrow> decide s fd =
               Continue (s\<lparr>buf := b, reset := 1, bytes_read := 0, left := 512, pos := 0\<rparr>) fd) \<and>
            (reset s = 1 \<longrightarrow> decide s fd = Break ABORTED (s\<lparr>buf := b, reset := 2\<rparr>) fd)) \<and>
         (\<forall>s fd res bytes fd1.
            loop_reaches (init_session stack, fd0) (s, fd) \<and>
            read_fd fd (size_t_sub (left s) 1) = (res, bytes, fd1) \<longrightarrow>
            (res \<le> 0 \<longrightarrow> iteration s fd =
               Break CLOSED (s\<lparr>trace := trace s @ [SockRead (size_t_sub (left s) 1)]\<rparr>) fd1) \<and>
            (0 < res \<longrightarrow>
               (\<exists>ok b. data_done (buf (received s res bytes)) (bytes_read s + res) = Inr (ok, b) \<and>
                  length b = 512 \<and>
                  (is_corrupted b (bytes_read s + res) \<longleftrightarrow>
                     DATA_LENGTH < bytes_read s + res \<and>
                     (\<exists>i. 30 \<le> i \<and> i + 3 \<le> nat (bytes_read s + res) \<and>
                          (take 3 (drop i b) = marker1 \<or> take 3 (drop i b) = marker2))) \<and>
                  iteration s fd =
                    (if ok
                     then Break SUCCESS (received s res bytes\<lparr>buf := b, success := True\<rparr>) fd1
                     else if is_corrupted b (bytes_read s + res) then
                       (if reset s = 0
                        then Continue (received s res bytes\<lparr>buf := b, reset := 1,
                                         bytes_read := 0, left := 512, pos := 0\<rparr>) fd1
                        else Break ABORTED (received s res bytes\<lparr>buf := b, reset := 2\<rparr>) fd1)
                     else Continue (received s res bytes\<lparr>buf := b\<rparr>) fd1)))) \<and>
         (\<forall>oc s' fd'. handler_loop (init_session stack) fd0 = Some (oc, s', fd') \<longrightarrow>
            (\<exists>sl fdl. loop_reaches (init_session stack, fd0) (sl, fdl) \<and>
                      iteration sl fdl = Break oc s' fd')) \<and>
         (\<forall>s fd. loop_reaches (init_session stack, fd0) (s, fd) \<and> reset s = 1 \<longrightarrow>
            (\<exists>s1 fd1 s1' fd1'. loop_reaches (init_session stack, fd0) (s1, fd1) \<and>
               reset s1 = 0 \<and> iteration s1 fd1 = Continue s1' fd1' \<and> reset s1' = 1 \<and>
               bytes_read s1' = 0))"
proof -
  have inv: "loop_inv s" if "loop_reaches (init_session stack, fd0) (s, fd)" for s fd
  proof -
    from that have "loop_inv (fst (s, fd))"
      by (rule reaches_inv) (simp add: init_inv assms)
    then show ?thesis
      by simp
  qed
  have A: "\<exists>oc s fd'. handler_loop (init_session stack) fd0 = Some (oc, s, fd') \<and>
            (oc = ABORTED \<longleftrightarrow> reset s = 2) \<and> (reset s = 0 \<or> reset s = 1 \<or> reset s = 2) \<and>
            (oc = ABORTED \<longrightarrow> \<not> success s)"
  proof -
    from handler_loop_post[OF init_inv[OF assms], of fd0] obtain oc s fd' where
      r: "handler_loop (init_session stack) fd0 = Some (oc, s, fd')" "loop_post oc s"
      by blast
    from r(2) have "(oc = ABORTED \<longleftrightarrow> reset s = 2) \<and>
        (reset s = 0 \<or> reset s = 1 \<or> reset s = 2) \<and> (oc = ABORTED \<longrightarrow> \<not> success s)"
      by (auto simp: loop_post_def)
    with r(1) show ?thesis
      by blast
  qed
  have B: "\<forall>s fd. loop_reaches (init_session stack, fd0) (s, fd) \<longrightarrow>
            (reset s = 0 \<or> reset s = 1) \<and>
            (\<forall>s' fd'. iteration s fd = Continue s' fd' \<longrightarrow>
               (reset s' = reset s \<and> bytes_read s < bytes_read s') \<or>
               (reset s = 0 \<and> reset s' = 1 \<and> bytes_read s' = 0 \<and> left s' = 512 \<and> pos s' = 0)) \<and>
            (\<forall>oc s' fd'. iteration s fd = Break oc s' fd' \<longrightarrow>
               (oc = ABORTED \<longrightarrow> reset s = 1 \<and> reset s' = 2 \<and> \<not> success s') \<and>
               (oc \<noteq> ABORTED \<longrightarrow> reset s' = reset s))"
  proof (intro allI impI)
    fix s fd
    assume "loop_reaches (init_session stack, fd0) (s, fd)"
    then have i: "loop_inv s"
      by (rule inv)
    then have "reset s = 0 \<or> reset s = 1"
      by (simp add: loop_inv_def)
    with iteration_reset[OF i, of fd] show "(reset s = 0 \<or> reset s = 1) \<and>
            (\<forall>s' fd'. iteration s fd = Continue s' fd' \<longrightarrow>
               (reset s' = reset s \<and> bytes_read s < bytes_read s') \<or>
               (reset s = 0 \<and> reset s' = 1 \<and> bytes_read s' = 0 \<and> left s' = 512 \<and> pos s' = 0)) \<and>
            (\<forall>oc s' fd'. iteration s fd = Break oc s' fd' \<longrightarrow>
               (oc = ABORTED \<longrightarrow> reset s = 1 \<and> reset s' = 2 \<and> \<not> success s') \<and>
               (oc \<noteq> ABORTED \<longrightarrow> reset s' = reset s))"
      by blast
  qed
  have C: "\<forall>s fd b. data_done (buf s) (bytes_read s) = Inr (False, b) \<and>
               is_corrupted b (bytes_read s) \<longrightarrow>
            (reset s = 0 \<longrightarrow> decide s fd =
               Continue (s\<lparr>buf := b, reset := 1, bytes_read := 0, left := 512, pos := 0\<rparr>) fd) \<and>
            (reset s = 1 \<longrightarrow> decide s fd = Break ABORTED (s\<lparr>buf := b, reset := 2\<rparr>) fd)"
  proof (intro allI impI)
    fix s :: session and fd b
    assume a: "data_done (buf s) (bytes_read s) = Inr (False, b) \<and> is_corrupted b (bytes_read s)"
    then have dd: "data_done (buf s) (bytes_read s) = Inr (False, b)"
      by simp
    from a show "(reset s = 0 \<longrightarrow> decide s fd =
               Continue (s\<lparr>buf := b, reset := 1, bytes_read := 0, left := 512, pos := 0\<rparr>) fd) \<and>
            (reset s = 1 \<longrightarrow> decide s fd = Break ABORTED (s\<lparr>buf := b, reset := 2\<rparr>) fd)"
      by (simp add: decide_cases[OF dd])
  qed
  have D: "\<forall>s fd res bytes fd1.
            loop_reaches (init_session stack, fd0) (s, fd) \<and>
            read_fd fd (size_t_sub (left s) 1) = (res, bytes, fd1) \<longrightarrow>
            (res \<le> 0 \<longrightarrow> iteration s fd =
               Break CLOSED (s\<lparr>trace := trace s @ [SockRead (size_t_sub (left s) 1)]\<rparr>) fd1) \<and>
            (0 < res \<longrightarrow>
               (\<exists>ok b. data_done (buf (received s res bytes)) (bytes_read s + res) = Inr (ok, b) \<and>
                  length b = 512 \<and>
                  (is_corrupted b (bytes_read s + res) \<longleftrightarrow>
                     DATA_LENGTH < bytes_read s + res \<and>
                     (\<exists>i. 30 \<le> i \<and> i + 3 \<le> nat (bytes_read s + res) \<and>
                          (take 3 (drop i b) = marker1 \<or> take 3 (drop i b) = marker2))) \<and>
                  iteration s fd =
                    (if ok
                     then Break SUCCESS (received s res bytes\<lparr>buf := b, success := True\<rparr>) fd1
                     else if is_corrupted b (bytes_read s + res) then
                       (if reset s = 0
                        then Continue (received s res bytes\<lparr>buf := b, reset := 1,
                                         bytes_read := 0, left := 512, pos := 0\<rparr>) fd1
                        else Break ABORTED (received s res bytes\<lparr>buf := b, reset := 2\<rparr>) fd1)
                     else Continue (received s res bytes\<lparr>buf := b\<rparr>) fd1)))"
  proof (intro allI impI conjI)
    fix s fd res bytes fd1
    assume a: "loop_reaches (init_session stack, fd0) (s, fd) \<and>
            read_fd fd (size_t_sub (left s) 1) = (res, bytes, fd1)"
    then have r: "read_fd fd (size_t_sub (left s) 1) = (res, bytes, fd1)"
      by simp
    {
      assume "res \<le> 0"
      with r show "iteration s fd =
          Break CLOSED (s\<lparr>trace := trace s @ [SockRead (size_t_sub (left s) 1)]\<rparr>) fd1"
        by (rule iteration_closed)
    }
    {
      assume p: "0 < res"
      from a have i: "loop_inv s"
        by (blast intro: inv)
      from pass_result[OF i r p] show
        "\<exists>ok b. data_done (buf (received s res bytes)) (bytes_read s + res) = Inr (ok, b) \<and>
                  length b = 512 \<and>
                  (is_corrupted b (bytes_read s + res) \<longleftrightarrow>
                     DATA_LENGTH < bytes_read s + res \<and>
                     (\<exists>i. 30 \<le> i \<and> i + 3 \<le> nat (bytes_read s + res) \<and>
                          (take 3 (drop i b) = marker1 \<or> take 3 (drop i b) = marker2))) \<and>
                  iteration s fd =
                    (if ok
                     then Break SUCCESS (received s res bytes\<lparr>buf := b, success := True\<rparr>) fd1
                     else if is_corrupted b (bytes_read s + res) then
                       (if reset s = 0
                        then Continue (received s res bytes\<lparr>buf := b, reset := 1,
                                         bytes_read := 0, left := 512, pos := 0\<rparr>) fd1
                        else Break ABORTED (received s res bytes\<lparr>buf := b, reset := 2\<rparr>) fd1)
                     else Continue (received s res bytes\<lparr>buf := b\<rparr>) fd1)" .
    }
  qed
  have E: "\<forall>oc s' fd'. handler_loop (init_session stack) fd0 = Some (oc, s', fd') \<longrightarrow>
            (\<exists>sl fdl. loop_reaches (init_session stack, fd0) (sl, fdl) \<and>
                      iteration sl fdl = Break oc s' fd')"
    by (intro allI impI) (rule last_pass)
  have F: "\<forall>s fd. loop_reaches (init_session stack, fd0) (s, fd) \<and> reset s = 1 \<longrightarrow>
            (\<exists>s1 fd1 s1' fd1'. loop_reaches (init_session stack, fd0) (s1, fd1) \<and>
               reset s1 = 0 \<and> iteration s1 fd1 = Continue s1' fd1' \<and> reset s1' = 1 \<and>
               bytes_read s1' = 0)"
  proof (intro allI impI)
    fix s fd
    assume a: "loop_reaches (init_session stack, fd0) (s, fd) \<and> reset s = 1"
    have "loop_inv (fst (init_session stack, fd0))"
      by (simp add: init_inv assms)
    moreover have "reset (fst (init_session stack, fd0)) = 0"
      by (simp add: init_session_def)
    ultimately have "loop_inv (fst (init_session stack, fd0))"
      "reset (fst (init_session stack, fd0)) = 0"
      by blast+
    with a first_reset[of "(init_session stack, fd0)" s fd] show
      "\<exists>s1 fd1 s1' fd1'. loop_reaches (init_session stack, fd0) (s1, fd1) \<and>
               reset s1 = 0 \<and> iteration s1 fd1 = Continue s1' fd1' \<and> reset s1' = 1 \<and>
               bytes_read s1' = 0"
      by blast
  qed
  show ?thesis
    by (intro conjI A B C D E F)
qed

theorem aborted_exactly_at_second_reset_witness:
  "length stack0 = 512 \<and>
   (\<exists>s fd'. handler_loop (init_session stack0) twice_corrupted = Some (ABORTED, s, fd') \<and>
       reset s = 2 \<and> \<not> success s) \<and>
   loop_reaches (init_session stack0, twice_corrupted)
     (after_first_reset, [Bytes noise_late, Bytes ''abc'']) \<and> reset after_first_reset = 1 \<and>
   fst (the (handler_loop (init_session stack0) quiet_call)) = CLOSED \<and>
   reset (fst (snd (the (handler_loop (init_session stack0) quiet_call)))) = 0 \<and>
   fst (the (handler_loop (init_session stack0) once_corrupted)) = CLOSED \<and>
   reset (fst (snd (the (handler_loop (init_session stack0) once_corrupted)))) = 1"
proof -
  have 1: "length stack0 = 512"
    by (simp add: stack0_def)
  have 2: "fst (the (handler_loop (init_session stack0) twice_corrupted)) = ABORTED"
    by code_simp
  from aborted_exactly_at_second_reset[OF 1, of twice_corrupted, THEN conjunct1] obtain oc s fd' where
    r: "handler_loop (init_session stack0) twice_corrupted = Some (oc, s, fd')"
    "(oc = ABORTED) = (reset s = 2)" "oc = ABORTED \<longrightarrow> \<not> success s"
    by blast
  from r(1) 2 have "oc = ABORTED"
    by simp
  with r have a: "\<exists>s fd'. handler_loop (init_session stack0) twice_corrupted =
       Some (ABORTED, s, fd') \<and> reset s = 2 \<and> \<not> success s"
    by blast
  have 3: "iteration (init_session stack0) twice_corrupted =
      Continue after_first_reset [Bytes noise_late, Bytes ''abc'']"
    by code_simp
  have 4: "loop_reaches (init_session stack0, twice_corrupted)
      (after_first_reset, [Bytes noise_late, Bytes ''abc''])"
    by (rule loop_reaches.pass[OF loop_reaches.start 3])
  have 5: "reset after_first_reset = 1"
    by (simp add: after_first_reset_def)
  have 6: "fst (the (handler_loop (init_session stack0) quiet_call)) = CLOSED"
    "reset (fst (snd (the (handler_loop (init_session stack0) quiet_call)))) = 0"
    by code_simp+
  have 7: "fst (the (handler_loop (init_session stack0) once_corrupted)) = CLOSED"
    "reset (fst (snd (the (handler_loop (init_session stack0) once_corrupted)))) = 1"
    by code_simp+
  from 1 a 4 5 6 7 show ?thesis
    by simp
qed

subsection \<open>The session and its effects\<close>

lemma unused_name_effects: "\<forall>e\<in>set (fst (unused_name cfg w k fuel)). is_file_effect e"
proof (induction fuel arbitrary: k)
  case 0
  show ?case by simp
next
  case (Suc fuel)
  obtain es r where u: "unused_name cfg w (Suc k) fuel = (es, r)"
    by (cases "unused_name cfg w (Suc k) fuel") auto
  with Suc[of "Suc k"] have "\<forall>e\<in>set es. is_file_effect e"
    by simp
  with u show ?case
    by simp
qed

lemma write_out_effects: "\<forall>e\<in>set (fst (write_out w filename mem len)). is_file_effect e"
  by (simp add: write_out_def)

lemma save_data_effects: "\<forall>e\<in>set (fst (save_data cfg w mem len ok)). is_file_effect e"
proof (cases ok)
  case True
  then show ?thesis
    using write_out_effects by (auto simp: save_data_def split: sum.splits option.splits)
next
  case False
  obtain es r where u: "unused_name cfg w 0 (rounds w) = (es, r)"
    by (cases "unused_name cfg w 0 (rounds w)") auto
  have es: "\<forall>e\<in>set es. is_file_effect e"
    using unused_name_effects[of cfg w 0 "rounds w"] u by simp
  show ?thesis
  proof (cases r)
    case None
    with False u es show ?thesis by (simp add: save_data_def)
  next
    case (Some filename)
    obtain es' r' where wo: "write_out w filename mem len = (es', r')"
      by (cases "write_out w filename mem len") auto
    have "\<forall>e\<in>set es'. is_file_effect e"
      using write_out_effects[of w filename mem len] wo by simp
    with False u es Some wo show ?thesis by (auto simp: save_data_def)
  qed
qed

lemma handler_shape:
  assumes "length stack = 512"
  shows "\<exists>oc sl fd' ns. handler_loop (init_session stack) fd = Some (oc, sl, fd') \<and>
           loop_post oc sl \<and> trace sl = map SockRead ns \<and>
           handler cfg w stack fd =
             (if log_to_file cfg
              then Some (oc, sl\<lparr>trace := map SockRead ns @ [SockClose] @
                                 fst (save_data cfg w (buf sl) (bytes_read sl) (success sl))\<rparr>,
                         Some (snd (save_data cfg w (buf sl) (bytes_read sl) (success sl))))
              else Some (oc, sl\<lparr>trace := map SockRead ns @ [SockClose]\<rparr>, None))"
proof -
  from handler_loop_post[OF init_inv[OF assms], of fd] obtain oc sl fd' ns where
    r: "handler_loop (init_session stack) fd = Some (oc, sl, fd')" "loop_post oc sl"
    "trace sl = trace (init_session stack) @ map SockRead ns"
    by blast
  have t: "trace sl = map SockRead ns"
    using r(3) by (simp add: init_session_def)
  have "handler cfg w stack fd =
             (if log_to_file cfg
              then Some (oc, sl\<lparr>trace := map SockRead ns @ [SockClose] @
                                 fst (save_data cfg w (buf sl) (bytes_read sl) (success sl))\<rparr>,
                         Some (snd (save_data cfg w (buf sl) (bytes_read sl) (success sl))))
              else Some (oc, sl\<lparr>trace := map SockRead ns @ [SockClose]\<rparr>, None))"
    using r(1) t by (simp add: handler_def Let_def split: prod.splits)
  with r(1,2) t show ?thesis by blast
qed

lemma take_takeWhile_le:
  "k \<le> length (takeWhile P xs) \<Longrightarrow> take k (takeWhile P xs) = take k xs"
proof (induction xs arbitrary: k)
  case Nil
  then show ?case by simp
next
  case (Cons x xs)
  then show ?case by (cases k) (auto split: if_splits)
qed

lemma field_of_valid:
  assumes "53 \<le> length (c_string (drop st mem))"
  shows "precision_s 10 (drop (st + 1) mem) = take 10 (drop (st + 1) mem) \<and>
         length (take 10 (drop (st + 1) mem)) = 10 \<and> NUL \<notin> set (take 10 (drop (st + 1) mem))"
proof -
  let ?P = "\<lambda>c. c \<noteq> NUL"
  obtain x d' where d: "drop st mem = x # d'"
    using assms by (cases "drop st mem") (auto simp: c_string_def)
  have x: "x \<noteq> NUL"
    using assms d by (auto simp: c_string_def split: if_splits)
  have d': "drop (st + 1) mem = d'"
    using d by (metis Suc_eq_plus1 drop_Suc drop_drop list.sel(3) tl_drop add.commute)
  have l: "52 \<le> length (takeWhile ?P d')"
    using assms d x by (simp add: c_string_def)
  then have t: "take 10 (takeWhile ?P d') = take 10 d'"
    by (intro take_takeWhile_le) simp
  have "set (take 10 (takeWhile ?P d')) \<subseteq> set (takeWhile ?P d')"
    by (rule set_take_subset)
  then have n: "NUL \<notin> set (take 10 (takeWhile ?P d'))"
    by (auto dest: set_takeWhileD)
  have "10 \<le> length d'"
    using l length_takeWhile_le[of ?P d'] by linarith
  then have "length (take 10 d') = 10" by simp
  with t n show ?thesis
    unfolding d' by (simp add: precision_s_def c_string_def)
qed

lemma dec_length: "n < 10 ^ k \<Longrightarrow> 0 < k \<Longrightarrow> length (dec n) \<le> k"
proof (induction n arbitrary: k rule: dec.induct)
  case (1 n)
  show ?case
  proof (cases "n < 10")
    case True
    with "1.prems" show ?thesis by (simp add: dec.simps[of n])
  next
    case False
    with "1.prems" obtain j where k: "k = Suc j" by (cases k) auto
    have "0 < j"
    proof (rule ccontr)
      assume "\<not> 0 < j"
      with k "1.prems" False show False by simp
    qed
    moreover have "n div 10 < 10 ^ j"
      using "1.prems"(1) k by (simp add: less_mult_imp_div_less mult.commute)
    ultimately have "length (dec (n div 10)) \<le> j"
      using "1.IH"[OF False] by simp
    with False k show ?thesis by (simp add: dec.simps[of n])
  qed
qed

lemma good_call_loop:
  "handler_loop (init_session stack0) good_call = Some (SUCCESS, after_printout, [])"
  by code_simp

lemma good_call_star:
  "memchr (buf after_printout) star (nat (bytes_read after_printout)) = Inr (Some 11)"
  by (simp add: after_printout_def preamble_def printout_def NUL_def star_def eval_nat_numeral)

lemma good_call_name:
  "success_name cfg0 w0 (buf after_printout) 11 = ''printouts/1718000000_3115552368.txt''"
  by (simp add: after_printout_def success_name_def cfg0_def w0_def snprintf_def
      precision_s_def c_string_def preamble_def printout_def NUL_def dec.simps digit_char_def)

lemma good_call_saved:
  "save_data cfg0 w0 (buf after_printout) (bytes_read after_printout) (success after_printout) =
     ([Open ''printouts/1718000000_3115552368.txt'', Write (preamble @ printout), CloseFile],
      Returned 0)"
proof -
  have "success after_printout" "bytes_read after_printout = 65"
    "take 65 (buf after_printout) = preamble @ printout" "write_returns w0 = 65"
    "\<not> open_fails w0 ''printouts/1718000000_3115552368.txt''"
    by (simp_all add: after_printout_def preamble_def printout_def w0_def)
  then show ?thesis
    using good_call_star by (simp add: save_data_def write_out_def good_call_name)
qed

lemma good_call_handler:
  "handler cfg0 w0 stack0 good_call =
     Some (SUCCESS,
           after_printout\<lparr>trace := [SockRead 511, SockClose,
              Open ''printouts/1718000000_3115552368.txt'', Write (preamble @ printout),
              CloseFile]\<rparr>,
           Some (Returned 0))"
proof -
  have "log_to_file cfg0" by (simp add: cfg0_def)
  moreover have "trace after_printout = [SockRead 511]" by (simp add: after_printout_def)
  ultimately show ?thesis
    by (simp add: handler_def good_call_loop good_call_saved Let_def)
qed

text \<open>
  Claim C7. Every session returns, and its effects are, in this order: the reads of the
  loop, one \<^verbatim>\<open>close\<close> of the socket, and then nothing but file effects, namely those of
  \<^verbatim>\<open>save_data\<close> when a directory was given and none otherwise. So every file effect of a
  session has the close of the socket before it, however the loop ended.
\<close>

theorem socket_closed_before_saving:
  assumes "length stack = 512"
  shows "\<exists>oc s r ns es. handler cfg w stack fd = Some (oc, s, r) \<and>
           trace s = map SockRead ns @ [SockClose] @ es \<and>
           (\<forall>e\<in>set es. is_file_effect e) \<and>
           (log_to_file cfg \<longrightarrow> es = fst (save_data cfg w (buf s) (bytes_read s) (success s))) \<and>
           (\<not> log_to_file cfg \<longrightarrow> es = []) \<and>
           (\<forall>i<length (trace s). is_file_effect (trace s ! i) \<longrightarrow>
               (\<exists>j<i. trace s ! j = SockClose))"
proof -
  from handler_shape[OF assms, of fd cfg w] obtain oc sl fd' ns where
    h: "loop_post oc sl" "trace sl = map SockRead ns"
    "handler cfg w stack fd =
             (if log_to_file cfg
              then Some (oc, sl\<lparr>trace := map SockRead ns @ [SockClose] @
                                 fst (save_data cfg w (buf sl) (bytes_read sl) (success sl))\<rparr>,
                         Some (snd (save_data cfg w (buf sl) (bytes_read sl) (success sl))))
              else Some (oc, sl\<lparr>trace := map SockRead ns @ [SockClose]\<rparr>, None))"
    by blast
  define es where "es = (if log_to_file cfg
      then fst (save_data cfg w (buf sl) (bytes_read sl) (success sl)) else [])"
  define s where "s = sl\<lparr>trace := map SockRead ns @ [SockClose] @ es\<rparr>"
  define r where "r = (if log_to_file cfg
      then Some (snd (save_data cfg w (buf sl) (bytes_read sl) (success sl))) else None)"
  have hs: "handler cfg w stack fd = Some (oc, s, r)"
    using h(3) by (simp add: s_def es_def r_def)
  have tr: "trace s = map SockRead ns @ [SockClose] @ es"
    by (simp add: s_def)
  have fe: "\<forall>e\<in>set es. is_file_effect e"
    using save_data_effects[of cfg w "buf sl" "bytes_read sl" "success sl"]
    by (simp add: es_def)
  have e1: "log_to_file cfg \<longrightarrow> es = fst (save_data cfg w (buf s) (bytes_read s) (success s))"
    by (simp add: es_def s_def)
  have e2: "\<not> log_to_file cfg \<longrightarrow> es = []"
    by (simp add: es_def)
  have prec: "\<exists>j<i. trace s ! j = SockClose"
    if i: "i < length (trace s)" and f: "is_file_effect (trace s ! i)" for i
  proof -
    have "\<not> i < length ns"
    proof
      assume "i < length ns"
      then have "trace s ! i = SockRead (ns ! i)"
        unfolding tr by (simp add: nth_append)
      with f show False by simp
    qed
    moreover have "i \<noteq> length ns"
    proof
      assume "i = length ns"
      then have "trace s ! i = SockClose"
        unfolding tr by (simp add: nth_append)
      with f show False by simp
    qed
    ultimately have "length ns < i" by simp
    moreover have "trace s ! length ns = SockClose"
      unfolding tr by (simp add: nth_append)
    ultimately show ?thesis by blast
  qed
  from hs tr fe e1 e2 prec show ?thesis by blast
qed

theorem socket_closed_before_saving_witness:
  "length stack0 = 512 \<and>
   (\<exists>s r. handler cfg0 w0 stack0 good_call = Some (SUCCESS, s, r) \<and>
      trace s = [SockRead 511, SockClose, Open ''printouts/1718000000_3115552368.txt'',
                 Write (preamble @ printout), CloseFile] \<and>
      (\<exists>j<2. trace s ! j = SockClose))"
proof -
  have 1: "length stack0 = 512"
    by (simp add: stack0_def)
  from socket_closed_before_saving[OF 1, of cfg0 w0 good_call] obtain oc s r where
    h: "handler cfg0 w0 stack0 good_call = Some (oc, s, r)"
    "\<forall>i<length (trace s). is_file_effect (trace s ! i) \<longrightarrow> (\<exists>j<i. trace s ! j = SockClose)"
    by blast
  from h(1) have oc: "oc = SUCCESS" and s: "s = after_printout\<lparr>trace := [SockRead 511, SockClose,
              Open ''printouts/1718000000_3115552368.txt'', Write (preamble @ printout),
              CloseFile]\<rparr>"
    by (simp_all add: good_call_handler)
  have t: "trace s = [SockRead 511, SockClose, Open ''printouts/1718000000_3115552368.txt'',
                 Write (preamble @ printout), CloseFile]"
    by (simp add: s)
  have "2 < length (trace s)" "is_file_effect (trace s ! 2)"
    by (simp_all add: t)
  with h(2) have "\<exists>j<2. trace s ! j = SockClose"
    by blast
  with 1 h(1) oc t show ?thesis
    by blast
qed

subsection \<open>The name of the saved file\<close>

lemma snprintf_684: "snprintf 684 text = take 683 text"
  by (simp add: snprintf_def)

text \<open>
  Claim C6, as the code has it. Let the daemon run with a directory of at most 511
  characters (what \<^verbatim>\<open>parse_options\<close> keeps of \<^verbatim>\<open>-f\<close>) and let the time fit an unsigned
  long. When a session ends with SUCCESS, the first effect after the close of the socket
  is the opening of the file named directory, \<open>/\<close>, the time in decimal digits, \<open>_\<close>, the
  ten bytes that follow the first \<open>*\<close> of the final buffer, and \<open>.txt\<close>. The ten bytes
  are there and none of them is zero, so the field has exactly ten characters and the
  name is never cut. The field holds the bytes as they were received, digits or not.
\<close>

theorem success_filename_embeds_identifier:
  assumes len: "length stack = 512"
    and dir: "length (outputdir cfg) \<le> 511"
    and tm: "time_at w 0 < 2 ^ 64"
    and log: "log_to_file cfg"
    and ok: "handler cfg w stack fd = Some (SUCCESS, s, r)"
  shows "\<exists>st ns rest. memchr (buf s) star (nat (bytes_read s)) = Inr (Some st) \<and>
           length (take 10 (drop (st + 1) (buf s))) = 10 \<and>
           NUL \<notin> set (take 10 (drop (st + 1) (buf s))) \<and>
           trace s = map SockRead ns @
             [SockClose,
              Open (outputdir cfg @ ''/'' @ dec (time_at w 0) @ ''_'' @
                    take 10 (drop (st + 1) (buf s)) @ ''.txt'')] @ rest"
proof -
  from handler_shape[OF len, of fd cfg w] log ok obtain sl fd' ns where
    h: "loop_post SUCCESS sl" "trace sl = map SockRead ns"
    "s = sl\<lparr>trace := map SockRead ns @ [SockClose] @
               fst (save_data cfg w (buf sl) (bytes_read sl) (success sl))\<rparr>"
    by auto
  from h(1) obtain m where suc: "success sl"
    and dd: "data_done m (bytes_read sl) = Inr (True, buf sl)"
    by (auto simp: loop_post_def)
  from data_done_valid_after[OF dd] obtain st where
    st: "memchr (buf sl) star (nat (bytes_read sl)) = Inr (Some st)"
    "53 \<le> length (c_string (drop st (buf sl)))"
    by blast
  let ?field = "take 10 (drop (st + 1) (buf sl))"
  from field_of_valid[OF st(2)] have f: "precision_s 10 (drop (st + 1) (buf sl)) = ?field"
    "length ?field = 10" "NUL \<notin> set ?field"
    by simp_all
  let ?name = "outputdir cfg @ ''/'' @ dec (time_at w 0) @ ''_'' @ ?field @ ''.txt''"
  have "time_at w 0 < (10::nat) ^ 20"
    using tm by simp
  then have "length (dec (time_at w 0)) \<le> 20"
    by (rule dec_length) simp
  then have "length ?name \<le> 683"
    using dir f(2) by simp
  then have fits: "take 683 ?name = ?name"
    by (rule take_all)
  have "success_name cfg w (buf sl) st = take 683 ?name"
    unfolding success_name_def snprintf_684 f(1) by (rule refl)
  then have nm: "success_name cfg w (buf sl) st = ?name"
    using fits by (rule trans)
  have "\<exists>rest. fst (save_data cfg w (buf sl) (bytes_read sl) (success sl)) = Open ?name # rest"
    using suc st(1) nm by (simp add: save_data_def write_out_def)
  then obtain rest where
    sd: "fst (save_data cfg w (buf sl) (bytes_read sl) (success sl)) = Open ?name # rest"
    by blast
  have b: "buf s = buf sl" "bytes_read s = bytes_read sl"
    by (simp_all add: h(3))
  have "trace s = map SockRead ns @ [SockClose, Open ?name] @ rest"
    by (simp add: h(3) sd)
  with st(1) f(2,3) show ?thesis
    unfolding b by blast
qed

theorem success_filename_embeds_identifier_witness:
  "length stack0 = 512 \<and> length (outputdir cfg0) \<le> 511 \<and> time_at w0 0 < 2 ^ 64 \<and>
   log_to_file cfg0 \<and>
   (\<exists>s r. handler cfg0 w0 stack0 good_call = Some (SUCCESS, s, r) \<and>
      memchr (buf s) star (nat (bytes_read s)) = Inr (Some 11) \<and>
      take 10 (drop (11 + 1) (buf s)) = ''3115552368'' \<and>
      (\<exists>ns rest. trace s = map SockRead ns @
         [SockClose, Open ''printouts/1718000000_3115552368.txt''] @ rest))"
proof -
  let ?s = "after_printout\<lparr>trace := [SockRead 511, SockClose,
              Open ''printouts/1718000000_3115552368.txt'', Write (preamble @ printout),
              CloseFile]\<rparr>"
  have 1: "length stack0 = 512"
    by (simp add: stack0_def)
  have 2: "length (outputdir cfg0) \<le> 511"
    by (simp add: cfg0_def)
  have 3: "time_at w0 0 < 2 ^ 64"
    by (simp add: w0_def)
  have 4: "log_to_file cfg0"
    by (simp add: cfg0_def)
  note 5 = good_call_handler
  have 6: "memchr (buf ?s) star (nat (bytes_read ?s)) = Inr (Some 11)"
    using good_call_star by simp
  have 7: "take 10 (drop (11 + 1) (buf ?s)) = ''3115552368''"
    by (simp add: after_printout_def preamble_def printout_def)
  have 8: "outputdir cfg0 @ ''/'' @ dec (time_at w0 0) @ ''_'' @ ''3115552368'' @ ''.txt'' =
      ''printouts/1718000000_3115552368.txt''"
    by (simp add: cfg0_def w0_def dec.simps digit_char_def)
  from success_filename_embeds_identifier[OF 1 2 3 4 5] obtain st ns rest where
    c: "memchr (buf ?s) star (nat (bytes_read ?s)) = Inr (Some st)"
    "trace ?s = map SockRead ns @
       [SockClose,
        Open (outputdir cfg0 @ ''/'' @ dec (time_at w0 0) @ ''_'' @
              take 10 (drop (st + 1) (buf ?s)) @ ''.txt'')] @ rest"
    by blast
  from c(1) 6 have "st = 11"
    by simp
  with c(2) have "trace ?s = map SockRead ns @
      [SockClose, Open ''printouts/1718000000_3115552368.txt''] @ rest"
    by (simp only: 7 8)
  then have "\<exists>ns rest. trace ?s = map SockRead ns @
      [SockClose, Open ''printouts/1718000000_3115552368.txt''] @ rest"
    by blast
  with 1 2 3 4 5 6 7 show ?thesis
    by blast
qed

lemma lettered_loop:
  "handler_loop (init_session stack0) [Bytes lettered] = Some (SUCCESS, after_lettered, [])"
  by code_simp

lemma lettered_star:
  "memchr (buf after_lettered) star (nat (bytes_read after_lettered)) = Inr (Some 0)"
  by (simp add: after_lettered_def lettered_def star_def eval_nat_numeral)

lemma lettered_name:
  "success_name cfg0 w54 (buf after_lettered) 0 = ''printouts/1718000000_ABCDEFGHIJ.txt''"
  by (simp add: after_lettered_def success_name_def cfg0_def w54_def w0_def snprintf_def
      precision_s_def c_string_def lettered_def NUL_def dec.simps digit_char_def)

lemma lettered_saved:
  "save_data cfg0 w54 (buf after_lettered) (bytes_read after_lettered) (success after_lettered) =
     ([Open ''printouts/1718000000_ABCDEFGHIJ.txt'', Write lettered, CloseFile], Returned 0)"
proof -
  have "success after_lettered" "bytes_read after_lettered = 54"
    "take 54 (buf after_lettered) = lettered" "write_returns w54 = 54"
    "\<not> open_fails w54 ''printouts/1718000000_ABCDEFGHIJ.txt''"
    by (simp_all add: after_lettered_def lettered_def w54_def w0_def)
  then show ?thesis
    using lettered_star by (simp add: save_data_def write_out_def lettered_name)
qed

text \<open>
  Claim C6 as the specification words it fails: the field need not consist of digits. The
  validator looks only at the \<open>*\<close>, so a printout whose identifier arrived as letters is
  a success, and the file is named after the letters.
\<close>

theorem success_filename_with_letters:
  "handler cfg0 w54 stack0 [Bytes lettered] =
     Some (SUCCESS,
           after_lettered\<lparr>trace := [SockRead 511, SockClose,
              Open ''printouts/1718000000_ABCDEFGHIJ.txt'', Write lettered, CloseFile]\<rparr>,
           Some (Returned 0)) \<and>
   take 10 (drop 1 (buf after_lettered)) = ''ABCDEFGHIJ'' \<and>
   \<not> list_all isdigit ''ABCDEFGHIJ''"
proof -
  have "log_to_file cfg0"
    by (simp add: cfg0_def)
  moreover have "trace after_lettered = [SockRead 511]"
    by (simp add: after_lettered_def)
  ultimately have "handler cfg0 w54 stack0 [Bytes lettered] =
     Some (SUCCESS,
           after_lettered\<lparr>trace := [SockRead 511, SockClose,
              Open ''printouts/1718000000_ABCDEFGHIJ.txt'', Write lettered, CloseFile]\<rparr>,
           Some (Returned 0))"
    by (simp add: handler_def lettered_loop lettered_saved Let_def)
  moreover have "take 10 (drop 1 (buf after_lettered)) = ''ABCDEFGHIJ''"
    by (simp add: after_lettered_def lettered_def)
  moreover have "\<not> list_all isdigit ''ABCDEFGHIJ''"
    by (simp add: isdigit_def)
  ultimately show ?thesis
    by simp
qed

end
